theory Spec2Isabelle
  imports Main "HOL-Library.Sublist"
begin

section \<open>Python strings\<close>

text \<open>
  Python strings are modelled as \<open>string\<close>: lists of the 256 characters of type \<open>char\<close>,
  read as the code points below 256. The library functions of \<open>str\<close> that the program
  calls are written out for this alphabet.
\<close>

definition DQ :: char where
  \<comment> \<open>the double quote\<close>
  "DQ = CHR 0x22"

definition BSL :: char where
  \<comment> \<open>the backslash\<close>
  "BSL = CHR 0x5C"

definition NL :: char where
  \<comment> \<open>the line feed\<close>
  "NL = CHR 0x0A"

definition py_isspace :: "char \<Rightarrow> bool" where
  \<comment> \<open>\<open>str.isspace\<close> on one code point below 256\<close>
  "py_isspace c = ((of_char c :: nat) \<in> {9, 10, 11, 12, 13, 28, 29, 30, 31, 32, 133, 160})"

definition lower_char :: "char \<Rightarrow> char" where
  \<comment> \<open>\<open>str.lower\<close> on one code point below 256: A-Z and the Latin-1 capitals\<close>
  "lower_char c =
     (let n = (of_char c :: nat)
      in if (65 \<le> n \<and> n \<le> 90) \<or> (192 \<le> n \<and> n \<le> 222 \<and> n \<noteq> 215)
         then char_of (n + 32) else c)"

definition py_lower :: "string \<Rightarrow> string" where
  "py_lower s = map lower_char s"

definition py_in :: "string \<Rightarrow> string \<Rightarrow> bool" where
  \<comment> \<open>\<open>sub in s\<close> for two strings: \<open>sub\<close> occurs in \<open>s\<close> as a contiguous run\<close>
  "py_in sub s = sublist sub s"

definition strip_chars :: "char list \<Rightarrow> string \<Rightarrow> string" where
  \<comment> \<open>\<open>s.strip(chars)\<close>: drops from both ends the characters that occur in \<open>chars\<close>\<close>
  "strip_chars cs s =
     rev (dropWhile (\<lambda>c. c \<in> set cs) (rev (dropWhile (\<lambda>c. c \<in> set cs) s)))"

definition py_strip :: "string \<Rightarrow> string" where
  \<comment> \<open>\<open>s.strip()\<close>: drops white space from both ends\<close>
  "py_strip s = rev (dropWhile py_isspace (rev (dropWhile py_isspace s)))"

fun split_acc :: "string \<Rightarrow> string \<Rightarrow> string list" where
  "split_acc w [] = (if w = [] then [] else [w])"
| "split_acc w (c # cs) =
     (if py_isspace c then (if w = [] then split_acc [] cs else w # split_acc [] cs)
      else split_acc (w @ [c]) cs)"

definition py_split :: "string \<Rightarrow> string list" where
  \<comment> \<open>\<open>s.split()\<close>: the maximal runs of characters that are not white space\<close>
  "py_split s = split_acc [] s"

definition startswith :: "string \<Rightarrow> string \<Rightarrow> bool" where
  "startswith s p = prefix p s"

definition endswith :: "string \<Rightarrow> string \<Rightarrow> bool" where
  "endswith s p = suffix p s"


section \<open>StructureCreator._sanitize_name\<close>

definition illegal_chars :: "char list" where
  \<comment> \<open>the character class of the regular expression in \<open>_sanitize_name\<close>\<close>
  "illegal_chars =
     [CHR ''<'', CHR ''>'', CHR '':'', DQ, CHR ''/'', BSL, CHR ''|'', CHR ''?'', CHR ''*'']"

definition re_sub_illegal :: "string \<Rightarrow> string" where
  \<comment> \<open>\<open>re.sub(r'[<>:"/\\|?*]', '_', name)\<close>: every character of the class becomes \<open>_\<close>\<close>
  "re_sub_illegal name = map (\<lambda>c. if c \<in> set illegal_chars then CHR ''_'' else c) name"

definition sanitize_name :: "string \<Rightarrow> string" where
  "sanitize_name name = take 50 (strip_chars ''. '' (re_sub_illegal name))"


section \<open>TestRunner.run_tests\<close>

text \<open>
  The child process and the editor automation are outside the program. A run of
  \<open>run_tests\<close> sees them through the outcome of each call, which the environment fixes:
  attempt \<open>i\<close> (counted from 0, as \<open>range\<close> does) runs the command, and after a failure
  writes the error file and drives the assistant; each of the three calls can raise.
\<close>

datatype proc_outcome =
    Exited int string string  \<comment> \<open>return code, stdout, stderr\<close>
  | TimeoutExpired
  | RunError                  \<comment> \<open>any other exception of \<open>subprocess.run\<close>\<close>

record test_env =
  package_json_exists :: bool
  run_outcome :: "nat \<Rightarrow> string list \<Rightarrow> proc_outcome"
  write_fix_ok :: "nat \<Rightarrow> bool"
  copilot_ok :: "nat \<Rightarrow> bool"

datatype event =
    TestExecuted "string list"  \<comment> \<open>\<open>subprocess.run\<close> called with this argument vector\<close>
  | ErrorFileWrite string       \<comment> \<open>\<open>_create_error_fix_file\<close> called; the content it writes\<close>
  | FixInvoked                  \<comment> \<open>\<open>_fix_with_copilot\<close> called\<close>

definition error_fix_content :: "string \<Rightarrow> string \<Rightarrow> string" where
  "error_fix_content stderr stdout =
     ''# Fix Prompt: The following errors occurred during testing. Please analyze and fix the issues:''
     @ [NL, NL] @ ''## STDERR:'' @ [NL] @ stderr @ [NL, NL]
     @ ''## STDOUT:'' @ [NL] @ stdout @ [NL, NL]
     @ ''## Instructions:'' @ [NL]
     @ ''Please identify the root cause of these errors and provide fixes for the relevant files.''
     @ [NL]
     @ ''Focus on syntax errors, missing imports, incorrect function signatures, and logical issues.''
     @ [NL]"

fun run_loop :: "test_env \<Rightarrow> string \<Rightarrow> nat \<Rightarrow> nat \<Rightarrow> event list \<Rightarrow> bool \<times> event list" where
  "run_loop env cmd 0 i tr = (False, tr)"
| "run_loop env cmd (Suc k) i tr =
     (let argv = py_split cmd; tr1 = tr @ [TestExecuted argv]
      in case run_outcome env i argv of
           TimeoutExpired \<Rightarrow> (False, tr1)
         | RunError \<Rightarrow> (False, tr1)
         | Exited rc out err \<Rightarrow>
             if rc = 0 then (True, tr1)
             else let tr2 = tr1 @ [ErrorFileWrite (error_fix_content err out)]
                  in if \<not> write_fix_ok env i then (False, tr2)
                     else let tr3 = tr2 @ [FixInvoked]
                          in if \<not> copilot_ok env i then (False, tr3)
                             else run_loop env cmd k (Suc i) tr3)"

definition run_tests :: "test_env \<Rightarrow> string \<Rightarrow> int \<Rightarrow> bool \<times> event list" where
  "run_tests env test_command max_attempts =
     (if test_command = [] then (True, [])
      else if py_in ''npm'' (py_lower test_command) \<and> \<not> package_json_exists env
      then (True, [])
      else run_loop env test_command (nat max_attempts) 0 [])"

definition is_TestExecuted :: "event \<Rightarrow> bool" where
  "is_TestExecuted e = (case e of TestExecuted _ \<Rightarrow> True | _ \<Rightarrow> False)"

definition test_executions :: "event list \<Rightarrow> nat" where
  "test_executions tr = length (filter is_TestExecuted tr)"

definition fix_invocations :: "event list \<Rightarrow> nat" where
  "fix_invocations tr = length (filter (\<lambda>e. e = FixInvoked) tr)"

definition always_failing_env :: test_env where
  \<comment> \<open>every execution exits with code 1, every fix step returns\<close>
  "always_failing_env =
     \<lparr>package_json_exists = False,
      run_outcome = (\<lambda>i argv. Exited 1 [] ''1 failed''),
      write_fix_ok = (\<lambda>i. True),
      copilot_ok = (\<lambda>i. True)\<rparr>"

definition fail_once_env :: test_env where
  \<comment> \<open>the first execution exits with code 1, the later ones with 0\<close>
  "fail_once_env =
     \<lparr>package_json_exists = False,
      run_outcome = (\<lambda>i argv. if i = 0 then Exited 1 [] ''1 failed'' else Exited 0 ''1 passed'' []),
      write_fix_ok = (\<lambda>i. True),
      copilot_ok = (\<lambda>i. True)\<rparr>"


section \<open>JSON values and the Python operations on them\<close>

text \<open>
  What \<open>json.loads\<close> returns: \<open>None\<close>, a \<open>bool\<close>, a number (kept as its literal), a
  \<open>str\<close>, a \<open>list\<close> or a \<open>dict\<close>. A \<open>dict\<close> is the list of its items in insertion order.
\<close>

datatype json =
    JNull
  | JBool bool
  | JNum string
  | JStr string
  | JList "json list"
  | JDict "(string \<times> json) list"

datatype error =
    JSONDecodeError   \<comment> \<open>raised by \<open>json.loads\<close>\<close>
  | ValueError json   \<comment> \<open>\<open>ValueError(f"Invalid file object: {file_obj}")\<close>\<close>
  | TypeError
  | KeyError
  | IndexError
  | AttributeError
  | OSError

definition dict_set :: "(string \<times> json) list \<Rightarrow> string \<Rightarrow> json \<Rightarrow> (string \<times> json) list" where
  \<comment> \<open>\<open>d[k] = v\<close>: an existing key keeps its place, a new key goes to the end\<close>
  "dict_set kvs k v =
     (if k \<in> fst ` set kvs then map (\<lambda>(k', v'). if k' = k then (k', v) else (k', v')) kvs
      else kvs @ [(k, v)])"

definition py_contains :: "string \<Rightarrow> json \<Rightarrow> error + bool" where
  \<comment> \<open>\<open>key in obj\<close> for a string \<open>key\<close>\<close>
  "py_contains key obj =
     (case obj of
        JDict kvs \<Rightarrow> Inr (key \<in> fst ` set kvs)
      | JList xs \<Rightarrow> Inr (JStr key \<in> set xs)
      | JStr s \<Rightarrow> Inr (py_in key s)
      | _ \<Rightarrow> Inl TypeError)"

definition py_iter :: "json \<Rightarrow> error + json list" where
  \<comment> \<open>the items that \<open>for x in obj\<close> visits\<close>
  "py_iter obj =
     (case obj of
        JList xs \<Rightarrow> Inr xs
      | JDict kvs \<Rightarrow> Inr (map (\<lambda>(k, v). JStr k) kvs)
      | JStr s \<Rightarrow> Inr (map (\<lambda>c. JStr [c]) s)
      | _ \<Rightarrow> Inl TypeError)"

definition getitem_key :: "json \<Rightarrow> string \<Rightarrow> error + json" where
  \<comment> \<open>\<open>obj[key]\<close> for a string \<open>key\<close>\<close>
  "getitem_key obj key =
     (case obj of
        JDict kvs \<Rightarrow> (case map_of kvs key of None \<Rightarrow> Inl KeyError | Some v \<Rightarrow> Inr v)
      | _ \<Rightarrow> Inl TypeError)"

definition setitem_key :: "json \<Rightarrow> string \<Rightarrow> json \<Rightarrow> error + json" where
  \<comment> \<open>\<open>obj[key] = v\<close> for a string \<open>key\<close>; the object after the assignment\<close>
  "setitem_key obj key v =
     (case obj of JDict kvs \<Rightarrow> Inr (JDict (dict_set kvs key v)) | _ \<Rightarrow> Inl TypeError)"

definition getitem_0 :: "json \<Rightarrow> error + json" where
  \<comment> \<open>\<open>obj[0]\<close>\<close>
  "getitem_0 obj =
     (case obj of
        JList xs \<Rightarrow> (case xs of [] \<Rightarrow> Inl IndexError | x # _ \<Rightarrow> Inr x)
      | JStr s \<Rightarrow> (case s of [] \<Rightarrow> Inl IndexError | c # _ \<Rightarrow> Inr (JStr [c]))
      | JDict kvs \<Rightarrow> Inl KeyError
      | _ \<Rightarrow> Inl TypeError)"

definition strip_method :: "json \<Rightarrow> error + string" where
  \<comment> \<open>\<open>obj.strip()\<close>\<close>
  "strip_method obj = (case obj of JStr s \<Rightarrow> Inr (py_strip s) | _ \<Rightarrow> Inl AttributeError)"


section \<open>json.dumps with indent=2\<close>

definition hex_digit :: "nat \<Rightarrow> char" where
  \<comment> \<open>the lower-case hexadecimal digit of a number below 16\<close>
  "hex_digit d = (if d < 10 then char_of (48 + d) else char_of (87 + d))"

definition escape_char :: "char \<Rightarrow> string" where
  \<comment> \<open>\<open>ensure_ascii\<close>: everything outside space..tilde is escaped\<close>
  "escape_char c =
     (if c = DQ then [BSL, DQ]
      else if c = BSL then [BSL, BSL]
      else if c = CHR 0x0A then [BSL, CHR ''n'']
      else if c = CHR 0x0D then [BSL, CHR ''r'']
      else if c = CHR 0x09 then [BSL, CHR ''t'']
      else if c = CHR 0x08 then [BSL, CHR ''b'']
      else if c = CHR 0x0C then [BSL, CHR ''f'']
      else if 32 \<le> (of_char c :: nat) \<and> (of_char c :: nat) \<le> 126 then [c]
      else [BSL, CHR ''u'', CHR ''0'', CHR ''0'',
            hex_digit ((of_char c :: nat) div 16), hex_digit ((of_char c :: nat) mod 16)])"

definition quote :: "string \<Rightarrow> string" where
  "quote s = DQ # concat (map escape_char s) @ [DQ]"

definition newline_indent :: "nat \<Rightarrow> string" where
  \<comment> \<open>a line feed and two spaces for each level\<close>
  "newline_indent level = NL # replicate (2 * level) (CHR '' '')"

fun join_with :: "string \<Rightarrow> string list \<Rightarrow> string" where
  "join_with sep [] = []"
| "join_with sep [x] = x"
| "join_with sep (x # y # ys) = x @ sep @ join_with sep (y # ys)"

fun dumps_at :: "nat \<Rightarrow> json \<Rightarrow> string" where
  "dumps_at level JNull = ''null''"
| "dumps_at level (JBool b) = (if b then ''true'' else ''false'')"
| "dumps_at level (JNum lit) = lit"
| "dumps_at level (JStr s) = quote s"
| "dumps_at level (JList xs) =
     (if xs = [] then ''[]''
      else ''['' @ newline_indent (Suc level)
           @ join_with ('','' @ newline_indent (Suc level)) (map (dumps_at (Suc level)) xs)
           @ newline_indent level @ '']'')"
| "dumps_at level (JDict kvs) =
     (if kvs = [] then ''{}''
      else ''{'' @ newline_indent (Suc level)
           @ join_with ('','' @ newline_indent (Suc level))
               (map (\<lambda>(k, v). quote k @ '': '' @ dumps_at (Suc level) v) kvs)
           @ newline_indent level @ ''}'')"

definition json_dumps :: "json \<Rightarrow> string" where
  "json_dumps v = dumps_at 0 v"


section \<open>json.loads\<close>

definition is_json_ws :: "char \<Rightarrow> bool" where
  "is_json_ws c = ((of_char c :: nat) \<in> {32, 9, 10, 13})"

definition skip_ws :: "string \<Rightarrow> string" where
  "skip_ws s = dropWhile is_json_ws s"

definition is_digit :: "char \<Rightarrow> bool" where
  "is_digit c = (48 \<le> (of_char c :: nat) \<and> (of_char c :: nat) \<le> 57)"

definition hex_val :: "char \<Rightarrow> nat option" where
  "hex_val c =
     (let n = (of_char c :: nat)
      in if 48 \<le> n \<and> n \<le> 57 then Some (n - 48)
         else if 97 \<le> n \<and> n \<le> 102 then Some (n - 87)
         else if 65 \<le> n \<and> n \<le> 70 then Some (n - 55)
         else None)"

definition hex4 :: "char \<Rightarrow> char \<Rightarrow> char \<Rightarrow> char \<Rightarrow> nat option" where
  "hex4 a b c d =
     (case (hex_val a, hex_val b, hex_val c, hex_val d) of
        (Some w, Some x, Some y, Some z) \<Rightarrow> Some (((w * 16 + x) * 16 + y) * 16 + z)
      | _ \<Rightarrow> None)"

definition unescape :: "char \<Rightarrow> char option" where
  \<comment> \<open>the character that follows a backslash, other than \<open>u\<close>\<close>
  "unescape e =
     (if e = DQ then Some DQ
      else if e = BSL then Some BSL
      else if e = CHR ''/'' then Some (CHR ''/'')
      else if e = CHR ''b'' then Some (CHR 0x08)
      else if e = CHR ''f'' then Some (CHR 0x0C)
      else if e = CHR ''n'' then Some (CHR 0x0A)
      else if e = CHR ''r'' then Some (CHR 0x0D)
      else if e = CHR ''t'' then Some (CHR 0x09)
      else None)"

text \<open>
  The string scanner starts behind the opening quote and returns the decoded string and
  the input behind the closing quote. A \<open>\u\<close> escape of a code point from 256 on (a
  surrogate pair included) has no character in the alphabet of this model: the scanner
  does not accept it, where Python decodes it. The statements below that speak of a text
  that the decoder rejects take the rejection as a hypothesis, and the texts they are run
  on have no such escape.
\<close>

fun scan_string :: "string \<Rightarrow> (string \<times> string) option" where
  "scan_string [] = None"
| "scan_string (c # cs) =
     (if c = DQ then Some ([], cs)
      else if c = BSL then
        (case cs of
           [] \<Rightarrow> None
         | e # cs1 \<Rightarrow>
             if e = CHR ''u'' then
               (case cs1 of
                  h1 # h2 # h3 # h4 # cs2 \<Rightarrow>
                    (case hex4 h1 h2 h3 h4 of
                       None \<Rightarrow> None
                     | Some n \<Rightarrow>
                         if n < 256 then
                           (case scan_string cs2 of
                              None \<Rightarrow> None
                            | Some (s, r) \<Rightarrow> Some (char_of n # s, r))
                         else None)
                | _ \<Rightarrow> None)
             else
               (case unescape e of
                  None \<Rightarrow> None
                | Some x \<Rightarrow>
                    (case scan_string cs1 of
                       None \<Rightarrow> None
                     | Some (s, r) \<Rightarrow> Some (x # s, r))))
      else if (of_char c :: nat) < 32 then None
      else (case scan_string cs of None \<Rightarrow> None | Some (s, r) \<Rightarrow> Some (c # s, r)))"

definition scan_int :: "string \<Rightarrow> (string \<times> string) option" where
  \<comment> \<open>\<open>0|[1-9]\d*\<close>\<close>
  "scan_int s =
     (case s of
        [] \<Rightarrow> None
      | c # cs \<Rightarrow>
          if c = CHR ''0'' then Some ([c], cs)
          else if is_digit c then Some (c # takeWhile is_digit cs, dropWhile is_digit cs)
          else None)"

definition scan_frac :: "string \<Rightarrow> string \<times> string" where
  \<comment> \<open>\<open>(\.\d+)?\<close>\<close>
  "scan_frac s =
     (case s of
        p # d # cs \<Rightarrow>
          if p = CHR ''.'' \<and> is_digit d
          then (p # d # takeWhile is_digit cs, dropWhile is_digit cs) else ([], s)
      | _ \<Rightarrow> ([], s))"

definition scan_exp :: "string \<Rightarrow> string \<times> string" where
  \<comment> \<open>\<open>([eE][-+]?\d+)?\<close>\<close>
  "scan_exp s =
     (case s of
        e # d # cs \<Rightarrow>
          if e \<in> {CHR ''e'', CHR ''E''} then
            (if is_digit d then (e # d # takeWhile is_digit cs, dropWhile is_digit cs)
             else if d \<in> {CHR ''+'', CHR ''-''} then
               (case cs of
                  d1 # cs1 \<Rightarrow>
                    if is_digit d1
                    then (e # d # d1 # takeWhile is_digit cs1, dropWhile is_digit cs1)
                    else ([], s)
                | [] \<Rightarrow> ([], s))
             else ([], s))
          else ([], s)
      | _ \<Rightarrow> ([], s))"

definition scan_number :: "string \<Rightarrow> (string \<times> string) option" where
  \<comment> \<open>\<open>-?(0|[1-9]\d*)(\.\d+)?([eE][-+]?\d+)?\<close>: the literal and the input behind it\<close>
  "scan_number s =
     (let (sign, s0) = (case s of c # cs \<Rightarrow> if c = CHR ''-'' then ([c], cs) else ([], s)
                        | [] \<Rightarrow> ([], s))
      in case scan_int s0 of
           None \<Rightarrow> None
         | Some (i, s1) \<Rightarrow>
             (let (f, s2) = scan_frac s1; (e, s3) = scan_exp s2
              in Some (sign @ i @ f @ e, s3)))"

definition dict_of_pairs :: "(string \<times> json) list \<Rightarrow> (string \<times> json) list" where
  \<comment> \<open>\<open>dict(pairs)\<close>: a repeated key keeps its first place and its last value\<close>
  "dict_of_pairs ps = foldl (\<lambda>d (k, v). dict_set d k v) [] ps"

definition keyword :: "string \<Rightarrow> json \<Rightarrow> string \<Rightarrow> (json \<times> string) option" where
  "keyword w v s = (if prefix w s then Some (v, drop (length w) s) else None)"

definition parse_scalar :: "string \<Rightarrow> (json \<times> string) option" where
  \<comment> \<open>the values that are neither strings nor containers, in the order of the decoder\<close>
  "parse_scalar s =
     (case keyword ''null'' JNull s of
        Some res \<Rightarrow> Some res
      | None \<Rightarrow>
     (case keyword ''true'' (JBool True) s of
        Some res \<Rightarrow> Some res
      | None \<Rightarrow>
     (case keyword ''false'' (JBool False) s of
        Some res \<Rightarrow> Some res
      | None \<Rightarrow>
     (case scan_number s of
        Some (lit, r) \<Rightarrow> Some (JNum lit, r)
      | None \<Rightarrow>
     (case keyword ''NaN'' (JNum ''NaN'') s of
        Some res \<Rightarrow> Some res
      | None \<Rightarrow>
     (case keyword ''Infinity'' (JNum ''Infinity'') s of
        Some res \<Rightarrow> Some res
      | None \<Rightarrow> keyword ''-Infinity'' (JNum ''-Infinity'') s))))))"

text \<open>
  The recursive descent of the decoder. Every call uses up one unit of the first
  argument; \<open>json_loads\<close> starts with more units than any parse of its input can use.
  The limits of the interpreter (the digits of an integer literal, the depth of the
  recursion) are not part of the model.
\<close>

fun parse_value :: "nat \<Rightarrow> string \<Rightarrow> (json \<times> string) option"
  and parse_elems :: "nat \<Rightarrow> string \<Rightarrow> (json list \<times> string) option"
  and parse_members :: "nat \<Rightarrow> string \<Rightarrow> ((string \<times> json) list \<times> string) option"
where
  "parse_value 0 s = None"
| "parse_value (Suc n) [] = None"
| "parse_value (Suc n) (c # cs) =
     (if c = DQ then
        (case scan_string cs of None \<Rightarrow> None | Some (s, r) \<Rightarrow> Some (JStr s, r))
      else if c = CHR ''{'' then
        (case skip_ws cs of
           [] \<Rightarrow> None
         | d # r \<Rightarrow>
             if d = CHR ''}'' then Some (JDict [], r)
             else (case parse_members n (d # r) of
                     None \<Rightarrow> None
                   | Some (ps, r') \<Rightarrow> Some (JDict (dict_of_pairs ps), r')))
      else if c = CHR ''['' then
        (case skip_ws cs of
           [] \<Rightarrow> None
         | d # r \<Rightarrow>
             if d = CHR '']'' then Some (JList [], r)
             else (case parse_elems n (d # r) of
                     None \<Rightarrow> None
                   | Some (xs, r') \<Rightarrow> Some (JList xs, r')))
      else parse_scalar (c # cs))"
| "parse_elems 0 s = None"
| "parse_elems (Suc n) s =
     (case parse_value n s of
        None \<Rightarrow> None
      | Some (v, r) \<Rightarrow>
          (case skip_ws r of
             [] \<Rightarrow> None
           | d # r1 \<Rightarrow>
               if d = CHR '']'' then Some ([v], r1)
               else if d = CHR '','' then
                 (case parse_elems n (skip_ws r1) of
                    None \<Rightarrow> None
                  | Some (vs, r2) \<Rightarrow> Some (v # vs, r2))
               else None))"
| "parse_members 0 s = None"
| "parse_members (Suc n) s =
     (case s of
        [] \<Rightarrow> None
      | q # cs \<Rightarrow>
          if q \<noteq> DQ then None
          else
            (case scan_string cs of
               None \<Rightarrow> None
             | Some (k, r) \<Rightarrow>
                 (case skip_ws r of
                    [] \<Rightarrow> None
                  | col # r1 \<Rightarrow>
                      if col \<noteq> CHR '':'' then None
                      else
                        (case parse_value n (skip_ws r1) of
                           None \<Rightarrow> None
                         | Some (v, r2) \<Rightarrow>
                             (case skip_ws r2 of
                                [] \<Rightarrow> None
                              | d # r3 \<Rightarrow>
                                  if d = CHR ''}'' then Some ([(k, v)], r3)
                                  else if d = CHR '','' then
                                    (case parse_members n (skip_ws r3) of
                                       None \<Rightarrow> None
                                     | Some (ps, r4) \<Rightarrow> Some ((k, v) # ps, r4))
                                  else None)))))"

definition json_loads :: "string \<Rightarrow> json option" where
  \<comment> \<open>white space, one value, white space, end of input\<close>
  "json_loads s =
     (case parse_value (2 * length s + 2) (skip_ws s) of
        None \<Rightarrow> None
      | Some (v, r) \<Rightarrow> if skip_ws r = [] then Some v else None)"


section \<open>MistralPlanner.parse_structure\<close>

definition strip_fence :: "string \<Rightarrow> string" where
  \<comment> \<open>the cleaning of the response before it is decoded\<close>
  "strip_fence json_string =
     (let s1 = py_strip json_string;
          s2 = (if startswith s1 ''```json'' then drop 7 s1 else s1);
          s3 = (if endswith s2 ''```'' then take (length s2 - 3) s2 else s2)
      in s3)"

definition fill_default :: "string \<Rightarrow> json \<Rightarrow> json \<Rightarrow> error + json" where
  \<comment> \<open>\<open>if key not in structure: structure[key] = default\<close>\<close>
  "fill_default key dflt structure =
     (case py_contains key structure of
        Inl e \<Rightarrow> Inl e
      | Inr True \<Rightarrow> Inr structure
      | Inr False \<Rightarrow> setitem_key structure key dflt)"

definition has_required_keys :: "json \<Rightarrow> error + bool" where
  \<comment> \<open>\<open>all(key in file_obj for key in ["path", "description", "copilot_prompt"])\<close>\<close>
  "has_required_keys file_obj =
     (case py_contains ''path'' file_obj of
        Inl e \<Rightarrow> Inl e
      | Inr False \<Rightarrow> Inr False
      | Inr True \<Rightarrow>
          (case py_contains ''description'' file_obj of
             Inl e \<Rightarrow> Inl e
           | Inr False \<Rightarrow> Inr False
           | Inr True \<Rightarrow> py_contains ''copilot_prompt'' file_obj))"

fun validate_files :: "json list \<Rightarrow> error + unit" where
  "validate_files [] = Inr ()"
| "validate_files (file_obj # rest) =
     (case has_required_keys file_obj of
        Inl e \<Rightarrow> Inl e
      | Inr False \<Rightarrow> Inl (ValueError file_obj)
      | Inr True \<Rightarrow> validate_files rest)"

definition validate :: "json \<Rightarrow> error + json" where
  \<comment> \<open>the part of \<open>parse_structure\<close> behind \<open>json.loads\<close>\<close>
  "validate structure =
     (case fill_default ''folders'' (JList []) structure of
        Inl e \<Rightarrow> Inl e
      | Inr s1 \<Rightarrow>
     (case fill_default ''files'' (JList []) s1 of
        Inl e \<Rightarrow> Inl e
      | Inr s2 \<Rightarrow>
     (case fill_default ''interactions'' (JStr []) s2 of
        Inl e \<Rightarrow> Inl e
      | Inr s3 \<Rightarrow>
     (case getitem_key s3 ''files'' of
        Inl e \<Rightarrow> Inl e
      | Inr fs \<Rightarrow>
     (case py_iter fs of
        Inl e \<Rightarrow> Inl e
      | Inr file_objs \<Rightarrow>
     (case validate_files file_objs of
        Inl e \<Rightarrow> Inl e
      | Inr _ \<Rightarrow> Inr s3))))))"

definition parse_structure :: "string \<Rightarrow> error + json" where
  "parse_structure json_string =
     (case json_loads (strip_fence json_string) of
        None \<Rightarrow> Inl JSONDecodeError
      | Some structure \<Rightarrow> validate structure)"


section \<open>MistralPlanner: the fallback blueprint\<close>

text \<open>
  The blueprint dictionaries that the program builds itself have fixed keys, so they are
  records (a \<open>blueprint\<close>). The file dictionaries of \<open>self.fallback_structure\<close> are shared between that
  dictionary and its shallow copies, and \<open>_get_fallback_structure\<close> assigns to one of them:
  they live in a store, and a structure that refers to them holds their addresses.
\<close>

record file_obj =
  path :: string
  description :: string
  copilot_prompt :: string

record 'f blueprint =
  folders :: "string list"
  files :: "'f list"
  interactions :: string
  test_command :: string

type_synonym addr = nat

record planner =
  objs :: "addr \<Rightarrow> file_obj"
  fallback_structure :: "addr blueprint"

definition main_file :: file_obj where
  "main_file =
     \<lparr>path = ''src/main.py'',
      description = ''Main application entry point'',
      copilot_prompt =
        ''Create a Python main.py file that serves as the entry point for the application''\<rparr>"

definition test_file :: file_obj where
  "test_file =
     \<lparr>path = ''tests/test_main.py'',
      description = ''Unit tests for main module'',
      copilot_prompt = ''Create pytest unit tests for the main.py module''\<rparr>"

definition readme_file :: file_obj where
  "readme_file =
     \<lparr>path = ''README.md'',
      description = ''Project documentation'',
      copilot_prompt = ''Create a comprehensive README.md file for this project''\<rparr>"

definition new_planner :: planner where
  \<comment> \<open>\<open>MistralPlanner.__init__\<close>: the three file dictionaries are at the addresses 0, 1, 2\<close>
  "new_planner =
     \<lparr>objs = (\<lambda>a. if a = 0 then main_file else if a = 1 then test_file else readme_file),
      fallback_structure =
        \<lparr>folders = [''src'', ''tests'', ''docs''],
         files = [0, 1, 2],
         interactions =
           ''Basic project structure with main application file, tests, and documentation.'',
         test_command = ''pytest tests''\<rparr>\<rparr>"

definition web_structure :: "string \<Rightarrow> file_obj blueprint" where
  "web_structure topic =
     \<lparr>folders = [''src'', ''assets'', ''css'', ''js'', ''tests''],
      files =
        [\<lparr>path = ''src/index.html'',
          description = ''Main HTML file for '' @ topic,
          copilot_prompt = ''Create a complete HTML5 webpage for '' @ topic
            @ '' with modern structure and semantic elements''\<rparr>,
         \<lparr>path = ''css/style.css'',
          description = ''Main stylesheet'',
          copilot_prompt = ''Create modern, responsive CSS styles for '' @ topic
            @ '' webpage with animations and good typography''\<rparr>,
         \<lparr>path = ''js/main.js'',
          description = ''Main JavaScript functionality'',
          copilot_prompt = ''Create JavaScript code for '' @ topic
            @ '' with interactive features and modern ES6+ syntax''\<rparr>],
      interactions = ''A web project for '' @ topic
        @ '' with HTML structure, CSS styling, and JavaScript functionality working together to create an interactive website.'',
      test_command = []\<rparr>"

definition api_structure :: "string \<Rightarrow> file_obj blueprint" where
  "api_structure topic =
     \<lparr>folders = [''src'', ''tests'', ''config''],
      files =
        [\<lparr>path = ''src/app.py'',
          description = ''Main application server for '' @ topic,
          copilot_prompt = ''Create a FastAPI or Flask server application for '' @ topic
            @ '' with RESTful endpoints''\<rparr>,
         \<lparr>path = ''src/models.py'',
          description = ''Data models'',
          copilot_prompt = ''Create Pydantic or SQLAlchemy models for '' @ topic
            @ '' application''\<rparr>,
         \<lparr>path = ''tests/test_app.py'',
          description = ''API tests'',
          copilot_prompt = ''Create comprehensive pytest tests for '' @ topic
            @ '' API endpoints''\<rparr>],
      interactions = ''A backend API for '' @ topic
        @ '' with models, endpoints, and tests working together.'',
      test_command = ''pytest tests''\<rparr>"

definition file_json :: "file_obj \<Rightarrow> json" where
  "file_json f =
     JDict [(''path'', JStr (path f)), (''description'', JStr (description f)),
            (''copilot_prompt'', JStr (copilot_prompt f))]"

definition structure_json :: "file_obj blueprint \<Rightarrow> json" where
  "structure_json s =
     JDict [(''folders'', JList (map JStr (folders s))),
            (''files'', JList (map file_json (files s))),
            (''interactions'', JStr (interactions s)),
            (''test_command'', JStr (test_command s))]"

definition resolve :: "(addr \<Rightarrow> file_obj) \<Rightarrow> addr blueprint \<Rightarrow> file_obj blueprint" where
  \<comment> \<open>the structure with the file dictionaries that its addresses point to\<close>
  "resolve st s =
     \<lparr>folders = folders s, files = map st (files s),
      interactions = interactions s, test_command = test_command s\<rparr>"

definition customize :: "string \<Rightarrow> addr list \<Rightarrow> (addr \<Rightarrow> file_obj) \<Rightarrow> (addr \<Rightarrow> file_obj)" where
  \<comment> \<open>the loop over \<open>structure["files"]\<close>: it assigns to the file dictionaries in the store\<close>
  "customize topic as st =
     fold (\<lambda>a st.
            if path (st a) = ''src/main.py''
            then st(a := (st a)\<lparr>copilot_prompt := ''Create a Python application for '' @ topic
                                   @ '' with proper structure and functionality''\<rparr>)
            else st) as st"

definition web_words :: "string list" where
  "web_words = [''web'', ''website'', ''html'', ''css'', ''js'']"

definition api_words :: "string list" where
  "api_words = [''api'', ''server'', ''backend'']"

definition get_fallback_structure :: "planner \<Rightarrow> string \<Rightarrow> string \<times> planner" where
  "get_fallback_structure self topic =
     (let topic_lower = py_lower topic
      in if list_ex (\<lambda>word. py_in word topic_lower) web_words
         then (json_dumps (structure_json (web_structure topic)), self)
         else if list_ex (\<lambda>word. py_in word topic_lower) api_words
         then (json_dumps (structure_json (api_structure topic)), self)
         else
           (let structure = (fallback_structure self)
                  \<lparr>interactions := ''A Python project for '' @ topic
                     @ '' with main application, tests, and documentation.''\<rparr>;
                objs' = customize topic (files structure) (objs self)
            in (json_dumps (structure_json (resolve objs' structure)), self\<lparr>objs := objs'\<rparr>)))"


section \<open>MistralPlanner.ask and the acquisition of the blueprint\<close>

text \<open>
  The remote service is outside the program. An attempt of \<open>ask\<close> ends in a timeout, in
  another exception of the HTTP library (a connection error, an error status, a body that
  is not JSON), or in the decoded body of the response.
\<close>

datatype http_outcome = Timeout | RequestError | Response json

definition timeouts :: "nat list" where
  "timeouts = [30, 60, 90]"

definition extract_content :: "json \<Rightarrow> error + string" where
  \<comment> \<open>\<open>data["choices"][0]["message"]["content"].strip()\<close>\<close>
  "extract_content data =
     (case getitem_key data ''choices'' of
        Inl e \<Rightarrow> Inl e
      | Inr choices \<Rightarrow>
     (case getitem_0 choices of
        Inl e \<Rightarrow> Inl e
      | Inr choice \<Rightarrow>
     (case getitem_key choice ''message'' of
        Inl e \<Rightarrow> Inl e
      | Inr message \<Rightarrow>
     (case getitem_key message ''content'' of
        Inl e \<Rightarrow> Inl e
      | Inr content \<Rightarrow> strip_method content))))"

fun ask_loop ::
  "(nat \<Rightarrow> nat \<Rightarrow> http_outcome) \<Rightarrow> planner \<Rightarrow> string \<Rightarrow> (nat \<times> nat) list
     \<Rightarrow> (error + string option) \<times> planner" where
  "ask_loop net self topic [] = (Inr None, self)"
| "ask_loop net self topic ((attempt, timeout) # rest) =
     (let fallback = (case get_fallback_structure self topic of
                        (text, self') \<Rightarrow> (Inr (Some text), self'));
          retry = (if attempt = length timeouts then fallback
                   else ask_loop net self topic rest)
      in case net attempt timeout of
           Timeout \<Rightarrow> retry
         | RequestError \<Rightarrow> retry
         | Response data \<Rightarrow>
             (case extract_content data of
                Inr content \<Rightarrow> (Inr (Some content), self)
              | Inl e \<Rightarrow> if e = KeyError \<or> e = IndexError then retry else (Inl e, self)))"

definition ask :: "(nat \<Rightarrow> nat \<Rightarrow> http_outcome) \<Rightarrow> planner \<Rightarrow> string
     \<Rightarrow> (error + string option) \<times> planner" where
  \<comment> \<open>\<open>net attempt timeout\<close> is the outcome of the request of that attempt, counted from 1\<close>
  "ask net self topic = ask_loop net self topic (enumerate 1 timeouts)"

definition acquire_blueprint :: "(nat \<Rightarrow> nat \<Rightarrow> http_outcome) \<Rightarrow> string \<Rightarrow> error + json" where
  \<comment> \<open>the first step of \<open>main\<close>: a new planner, \<open>ask\<close>, then \<open>parse_structure\<close>\<close>
  "acquire_blueprint net topic =
     (case fst (ask net new_planner topic) of
        Inl e \<Rightarrow> Inl e
      | Inr None \<Rightarrow> Inl AttributeError
      | Inr (Some json_response) \<Rightarrow> parse_structure json_response)"


section \<open>StructureCreator.create_structure\<close>

text \<open>
  A \<open>pathlib\<close> path is the list of its parts below the root (POSIX flavour). Joining a
  string to a path splits the string at the slashes and drops the empty parts and the
  parts that are a single dot; a string that starts with a slash replaces the path.
\<close>

type_synonym fpath = "string list"

fun split_on :: "char \<Rightarrow> string \<Rightarrow> string list" where
  "split_on sep [] = [[]]"
| "split_on sep (c # cs) =
     (if c = sep then [] # split_on sep cs
      else (case split_on sep cs of
              part # parts \<Rightarrow> (c # part) # parts
            | [] \<Rightarrow> [[c]]))"

definition path_parts :: "string \<Rightarrow> string list" where
  "path_parts s = filter (\<lambda>part. part \<noteq> [] \<and> part \<noteq> ''.'') (split_on (CHR ''/'') s)"

definition joinpath :: "fpath \<Rightarrow> string \<Rightarrow> fpath" where
  \<comment> \<open>\<open>base / s\<close>\<close>
  "joinpath base s = (if startswith s ''/'' then path_parts s else base @ path_parts s)"

definition parent :: "fpath \<Rightarrow> fpath" where
  \<comment> \<open>\<open>p.parent\<close>: the path without its last part; the root is its own parent\<close>
  "parent p = butlast p"

text \<open>
  The file system is outside the program: the four operations that \<open>create_structure\<close>
  calls are parameters, each returning the new file system or the error it raises.
  The blueprint is taken with its values at the types that the prompt asks for, as the
  fallback builds it: strings and lists of strings.
\<close>

record 'fs os =
  os_exists :: "fpath \<Rightarrow> 'fs \<Rightarrow> bool"                          \<comment> \<open>\<open>Path.exists\<close>\<close>
  os_rmtree :: "fpath \<Rightarrow> 'fs \<Rightarrow> error + 'fs"                   \<comment> \<open>\<open>shutil.rmtree\<close>\<close>
  os_mkdir :: "fpath \<Rightarrow> 'fs \<Rightarrow> error + 'fs"
    \<comment> \<open>\<open>Path.mkdir(parents=True, exist_ok=True)\<close>\<close>
  os_write :: "fpath \<Rightarrow> string \<Rightarrow> 'fs \<Rightarrow> error + 'fs"          \<comment> \<open>\<open>open(path, 'w')\<close> and \<open>write\<close>\<close>

definition file_stub :: "file_obj \<Rightarrow> string" where
  "file_stub f =
     ''# Description: '' @ description f @ [NL]
     @ ''# Copilot Prompt: '' @ copilot_prompt f @ [NL, NL]"

definition readme_content :: "string \<Rightarrow> file_obj blueprint \<Rightarrow> string" where
  "readme_content topic s =
     ''# '' @ topic @ [NL, NL]
     @ ''## Project Structure'' @ [NL, NL]
     @ interactions s @ [NL, NL]
     @ ''## Getting Started'' @ [NL, NL]
     @ ''This project was generated automatically. Each file contains a Copilot prompt that describes its intended functionality.''
     @ [NL, NL]
     @ (if test_command s \<noteq> []
        then ''## Testing'' @ [NL, NL] @ ''Run tests with: `'' @ test_command s @ ''`'' @ [NL, NL]
        else [])"

fun create_folders :: "'fs os \<Rightarrow> fpath \<Rightarrow> string list \<Rightarrow> 'fs \<Rightarrow> error + 'fs" where
  "create_folders sys project_path [] fs = Inr fs"
| "create_folders sys project_path (folder # rest) fs =
     (case os_mkdir sys (joinpath project_path folder) fs of
        Inl e \<Rightarrow> Inl e
      | Inr fs1 \<Rightarrow> create_folders sys project_path rest fs1)"

fun create_files :: "'fs os \<Rightarrow> fpath \<Rightarrow> file_obj list \<Rightarrow> 'fs \<Rightarrow> error + 'fs" where
  "create_files sys project_path [] fs = Inr fs"
| "create_files sys project_path (f # rest) fs =
     (let file_path = joinpath project_path (path f)
      in case os_mkdir sys (parent file_path) fs of
           Inl e \<Rightarrow> Inl e
         | Inr fs1 \<Rightarrow>
             (case os_write sys file_path (file_stub f) fs1 of
                Inl e \<Rightarrow> Inl e
              | Inr fs2 \<Rightarrow> create_files sys project_path rest fs2))"

definition create_structure ::
  "'fs os \<Rightarrow> fpath \<Rightarrow> string \<Rightarrow> file_obj blueprint \<Rightarrow> 'fs \<Rightarrow> error + (fpath \<times> 'fs)" where
  "create_structure sys desktop_path topic s fs =
     (let project_name = sanitize_name topic;
          project_path = joinpath desktop_path project_name
      in case (if os_exists sys project_path fs then os_rmtree sys project_path fs else Inr fs) of
           Inl e \<Rightarrow> Inl e
         | Inr fs1 \<Rightarrow>
        (case os_mkdir sys project_path fs1 of
           Inl e \<Rightarrow> Inl e
         | Inr fs2 \<Rightarrow>
        (case create_folders sys project_path (folders s) fs2 of
           Inl e \<Rightarrow> Inl e
         | Inr fs3 \<Rightarrow>
        (case create_files sys project_path (files s) fs3 of
           Inl e \<Rightarrow> Inl e
         | Inr fs4 \<Rightarrow>
        (case os_write sys (joinpath project_path ''README.md'') (readme_content topic s) fs4 of
           Inl e \<Rightarrow> Inl e
         | Inr fs5 \<Rightarrow> Inr (project_path, fs5))))))"


subsection \<open>A small file system to run \<open>create_structure\<close> on\<close>

text \<open>
  Directories and files by their paths, for paths without \<open>..\<close> parts (a part \<open>..\<close> would
  be kept as a name here, where a real file system resolves it).
\<close>

datatype node = Dir | File string

type_synonym tree = "(fpath \<times> node) list"

definition t_exists :: "fpath \<Rightarrow> tree \<Rightarrow> bool" where
  "t_exists p t = (p = [] \<or> map_of t p \<noteq> None)"

definition t_is_dir :: "fpath \<Rightarrow> tree \<Rightarrow> bool" where
  "t_is_dir p t = (p = [] \<or> map_of t p = Some Dir)"

definition t_rmtree :: "fpath \<Rightarrow> tree \<Rightarrow> error + tree" where
  \<comment> \<open>removes a directory and everything below it\<close>
  "t_rmtree p t =
     (if t_is_dir p t then Inr (filter (\<lambda>(q, n). \<not> prefix p q) t) else Inl OSError)"

fun t_mkdirs :: "fpath list \<Rightarrow> tree \<Rightarrow> error + tree" where
  "t_mkdirs [] t = Inr t"
| "t_mkdirs (p # ps) t =
     (if t_is_dir p t then t_mkdirs ps t
      else if t_exists p t then Inl OSError
      else t_mkdirs ps (t @ [(p, Dir)]))"

definition t_mkdir :: "fpath \<Rightarrow> tree \<Rightarrow> error + tree" where
  \<comment> \<open>creates the directory and its missing ancestors, from the root downwards\<close>
  "t_mkdir p t = t_mkdirs (prefixes p) t"

definition t_write :: "fpath \<Rightarrow> string \<Rightarrow> tree \<Rightarrow> error + tree" where
  \<comment> \<open>creates or truncates a file in an existing directory\<close>
  "t_write p content t =
     (if t_is_dir p t \<or> \<not> t_is_dir (parent p) t then Inl OSError
      else if t_exists p t then Inr (map (\<lambda>(q, n). if q = p then (q, File content) else (q, n)) t)
      else Inr (t @ [(p, File content)]))"

definition tree_os :: "tree os" where
  "tree_os = \<lparr>os_exists = t_exists, os_rmtree = t_rmtree, os_mkdir = t_mkdir, os_write = t_write\<rparr>"

definition desktop :: fpath where
  "desktop = [''home'', ''user'', ''Desktop'']"

definition desktop_before :: tree where
  \<comment> \<open>a desktop with a document and a folder of the user on it\<close>
  "desktop_before =
     [([''home''], Dir), ([''home'', ''user''], Dir), (desktop, Dir),
      (desktop @ [''thesis.txt''], File ''chapter 1''),
      (desktop @ [''photos''], Dir),
      (desktop @ [''photos'', ''a.jpg''], File ''jpg'')]"

definition small_blueprint :: "file_obj blueprint" where
  "small_blueprint =
     \<lparr>folders = [''src''],
      files = [\<lparr>path = ''src/main.py'', description = ''entry'', copilot_prompt = ''write it''\<rparr>],
      interactions = ''one file'',
      test_command = []\<rparr>"


section \<open>Notions used in the statements\<close>

definition required_keys :: "string list" where
  "required_keys = [''path'', ''description'', ''copilot_prompt'']"

definition complete_file :: "json \<Rightarrow> bool" where
  \<comment> \<open>a file object: a dictionary with the three required keys\<close>
  "complete_file f =
     (case f of JDict fk \<Rightarrow> list_all (\<lambda>k. k \<in> fst ` set fk) required_keys | _ \<Rightarrow> False)"

definition add_default :: "string \<Rightarrow> json \<Rightarrow> (string \<times> json) list \<Rightarrow> (string \<times> json) list" where
  "add_default k d kvs = (if k \<in> fst ` set kvs then kvs else kvs @ [(k, d)])"

definition with_defaults :: "(string \<times> json) list \<Rightarrow> (string \<times> json) list" where
  \<comment> \<open>the items of a blueprint with the missing top-level keys at their defaults\<close>
  "with_defaults kvs =
     add_default ''interactions'' (JStr [])
       (add_default ''files'' (JList []) (add_default ''folders'' (JList []) kvs))"

definition files_of :: "(string \<times> json) list \<Rightarrow> json" where
  \<comment> \<open>the value of \<open>files\<close>, the empty list when the key is missing\<close>
  "files_of kvs = (case map_of kvs ''files'' of None \<Rightarrow> JList [] | Some v \<Rightarrow> v)"

definition retryable :: "http_outcome \<Rightarrow> bool" where
  \<comment> \<open>the outcomes that the three handlers of \<open>ask\<close> catch\<close>
  "retryable r =
     (case r of
        Timeout \<Rightarrow> True
      | RequestError \<Rightarrow> True
      | Response data \<Rightarrow>
          extract_content data = Inl KeyError \<or> extract_content data = Inl IndexError)"

inductive reachable :: "planner \<Rightarrow> bool" where
  \<comment> \<open>the states of a planner: a new one, and the state after a call of the fallback\<close>
  reachable_new: "reachable new_planner"
| reachable_call: "reachable self \<Longrightarrow> reachable (snd (get_fallback_structure self topic))"

definition fallback_blueprint :: "string \<Rightarrow> file_obj blueprint" where
  \<comment> \<open>the blueprint that the fallback serialises, as a function of the topic alone\<close>
  "fallback_blueprint topic =
     (if list_ex (\<lambda>word. py_in word (py_lower topic)) web_words then web_structure topic
      else if list_ex (\<lambda>word. py_in word (py_lower topic)) api_words then api_structure topic
      else
        \<lparr>folders = [''src'', ''tests'', ''docs''],
         files =
           [main_file\<lparr>copilot_prompt := ''Create a Python application for '' @ topic
                         @ '' with proper structure and functionality''\<rparr>,
            test_file, readme_file],
         interactions = ''A Python project for '' @ topic
           @ '' with main application, tests, and documentation.'',
         test_command = ''pytest tests''\<rparr>)"

definition chatty_net :: "nat \<Rightarrow> nat \<Rightarrow> http_outcome" where
  \<comment> \<open>the service answers every request, with a sentence instead of JSON\<close>
  "chatty_net attempt timeout =
     Response (JDict [(''choices'',
       JList [JDict [(''message'', JDict [(''content'', JStr ''I cannot help with that.'')])]])])"

definition down_net :: "nat \<Rightarrow> nat \<Rightarrow> http_outcome" where
  \<comment> \<open>every request times out\<close>
  "down_net attempt timeout = Timeout"




definition empty_path_text :: string where
  \<comment> \<open>a blueprint with a file object whose \<open>path\<close> is the empty string\<close>
  "empty_path_text =
     json_dumps (JDict [(''folders'', JList []),
       (''files'', JList [JDict [(''path'', JStr []),
          (''description'', JStr ''d''), (''copilot_prompt'', JStr ''p'')]]),
       (''interactions'', JStr [])])"

definition planner_inv :: "planner \<Rightarrow> bool" where
  \<comment> \<open>what every call of the fallback preserves: only the prompt of the first file changes\<close>
  "planner_inv p =
     (fallback_structure p = fallback_structure new_planner \<and>
      path (objs p 0) = ''src/main.py'' \<and> description (objs p 0) = description main_file \<and>
      objs p 1 = test_file \<and> objs p 2 = readme_file)"

fun plain :: "json \<Rightarrow> bool" where
  \<comment> \<open>the values that the program serialises: strings, lists, and dictionaries\<close>
  "plain (JStr s) = True"
| "plain (JList xs) = (\<forall>x\<in>set xs. plain x)"
| "plain (JDict kvs) = (distinct (map fst kvs) \<and> (\<forall>kv\<in>set kvs. plain (snd kv)))"
| "plain _ = False"

fun items_text :: "nat \<Rightarrow> json list \<Rightarrow> string" where
  \<comment> \<open>what \<open>json.dumps\<close> writes behind the first item of a list at this level\<close>
  "items_text level [] = newline_indent level @ '']''"
| "items_text level (x # xs) =
     '','' @ newline_indent (Suc level) @ dumps_at (Suc level) x @ items_text level xs"

fun pairs_text :: "nat \<Rightarrow> (string \<times> json) list \<Rightarrow> string" where
  \<comment> \<open>what \<open>json.dumps\<close> writes behind the first item of a dictionary at this level\<close>
  "pairs_text level [] = newline_indent level @ ''}''"
| "pairs_text level (kv # kvs) =
     '','' @ newline_indent (Suc level) @ quote (fst kv) @ '': '' @ dumps_at (Suc level) (snd kv)
     @ pairs_text level kvs"

definition opener :: "char \<Rightarrow> bool" where
  \<comment> \<open>the first character of a serialised string, list or dictionary\<close>
  "opener c = (c = DQ \<or> c = CHR ''['' \<or> c = CHR ''{'')"


section \<open>Properties of \<open>_sanitize_name\<close>\<close>

lemma set_strip_chars: "set (strip_chars cs s) \<subseteq> set s"
  unfolding strip_chars_def
  by (metis set_dropWhileD set_rev subsetI)

lemma rstrip_split: "rev (dropWhile P (rev xs)) @ rev (takeWhile P (rev xs)) = xs"
  by (metis rev_append rev_rev_ident takeWhile_dropWhile_id)

lemma strip_chars_hd: "strip_chars cs s \<noteq> [] \<Longrightarrow> hd (strip_chars cs s) \<notin> set cs"
proof -
  let ?d = "dropWhile (\<lambda>c. c \<in> set cs) s"
  assume ne: "strip_chars cs s \<noteq> []"
  have split: "strip_chars cs s @ rev (takeWhile (\<lambda>c. c \<in> set cs) (rev ?d)) = ?d"
    unfolding strip_chars_def by (rule rstrip_split)
  with ne have "?d \<noteq> []" by (metis append_is_Nil_conv)
  then have "hd ?d \<notin> set cs" using hd_dropWhile by blast
  moreover have "hd ?d = hd (strip_chars cs s)" using split ne by (metis hd_append2)
  ultimately show ?thesis by simp
qed

text \<open>
  What \<open>_sanitize_name\<close> does guarantee: no character of the illegal class, at most 50
  characters, and no dot or space in front.
\<close>

lemma sanitize_name_legal: "c \<in> set (sanitize_name name) \<Longrightarrow> c \<notin> set illegal_chars"
proof -
  assume "c \<in> set (sanitize_name name)"
  then have "c \<in> set (re_sub_illegal name)"
    unfolding sanitize_name_def using set_strip_chars by (meson in_set_takeD subsetD)
  then show ?thesis
    by (auto simp: re_sub_illegal_def illegal_chars_def DQ_def BSL_def)
qed

lemma sanitize_name_length: "length (sanitize_name name) \<le> 50"
  by (simp add: sanitize_name_def)

lemma sanitize_name_leading:
  "sanitize_name name \<noteq> [] \<Longrightarrow> hd (sanitize_name name) \<notin> {CHR ''.'', CHR '' ''}"
  using strip_chars_hd[of "''. ''" "re_sub_illegal name"]
  by (auto simp: sanitize_name_def)

text \<open>
  C2. The sanitized name is meant to have no trailing dot or space. The truncation to 50
  characters comes after the strip, so a topic with a space as its 50th character gives a
  name that ends in a space: 49 letters, a space and one more letter are cut after the space.
\<close>

theorem sanitize_name_trailing_space:
  "sanitize_name (replicate 49 (CHR ''a'') @ '' b'') = replicate 49 (CHR ''a'') @ '' '' \<and>
   last (sanitize_name (replicate 49 (CHR ''a'') @ '' b'')) = CHR '' ''"
  by code_simp


section \<open>Properties of \<open>run_tests\<close>\<close>

lemma count_after_fix:
  "test_executions (tr @ [TestExecuted a, ErrorFileWrite c, FixInvoked]) = Suc (test_executions tr)"
  "fix_invocations (tr @ [TestExecuted a, ErrorFileWrite c, FixInvoked]) = Suc (fix_invocations tr)"
  by (simp_all add: test_executions_def fix_invocations_def is_TestExecuted_def)

lemma run_loop_bounds:
  "test_executions (snd (run_loop env cmd k i tr)) \<le> test_executions tr + k \<and>
   test_executions tr \<le> test_executions (snd (run_loop env cmd k i tr)) \<and>
   fix_invocations tr \<le> fix_invocations (snd (run_loop env cmd k i tr)) \<and>
   fix_invocations (snd (run_loop env cmd k i tr)) - fix_invocations tr
     \<le> test_executions (snd (run_loop env cmd k i tr)) - test_executions tr"
proof (induction k arbitrary: i tr)
  case 0
  then show ?case by simp
next
  case (Suc k)
  show ?case
  proof (cases "run_outcome env i (py_split cmd)")
    case (Exited rc out err)
    let ?tr3 = "tr @ [TestExecuted (py_split cmd), ErrorFileWrite (error_fix_content err out), FixInvoked]"
    show ?thesis using Exited Suc.IH[of "Suc i" ?tr3] count_after_fix[of tr "py_split cmd" "error_fix_content err out"]
      by (auto simp: Let_def test_executions_def fix_invocations_def is_TestExecuted_def)
  qed (simp_all add: test_executions_def fix_invocations_def is_TestExecuted_def)
qed

lemma run_loop_all_fail:
  assumes "\<forall>j. \<exists>rc out err. run_outcome env j (py_split cmd) = Exited rc out err \<and> rc \<noteq> 0"
    and "\<forall>j. write_fix_ok env j \<and> copilot_ok env j"
  shows "fst (run_loop env cmd k i tr) = False \<and>
         test_executions (snd (run_loop env cmd k i tr)) = test_executions tr + k \<and>
         fix_invocations (snd (run_loop env cmd k i tr)) = fix_invocations tr + k"
proof (induction k arbitrary: i tr)
  case 0
  then show ?case by simp
next
  case (Suc k)
  from assms(1) obtain rc out err where
    ex: "run_outcome env i (py_split cmd) = Exited rc out err" "rc \<noteq> 0" by blast
  let ?tr3 = "tr @ [TestExecuted (py_split cmd), ErrorFileWrite (error_fix_content err out), FixInvoked]"
  have "run_loop env cmd (Suc k) i tr = run_loop env cmd k (Suc i) ?tr3"
    using ex assms(2) by (simp add: Let_def)
  then show ?case
    using Suc.IH[of "Suc i" ?tr3] count_after_fix[of tr "py_split cmd" "error_fix_content err out"]
    by simp
qed

lemma three_attempts: "nat 3 = Suc (Suc (Suc 0))"
  by simp

text \<open>
  C1, as the code has it. A command that is not skipped and exits non-zero on every
  execution, with fix steps that return: \<open>run_tests\<close> with \<open>max_attempts = 3\<close> runs the
  command exactly 3 times, invokes the fix exactly 3 times (once after every failed
  execution, the last one included) and returns \<open>False\<close>. For every environment, command
  and \<open>max_attempts\<close>, the executions are at most \<open>max_attempts\<close> (none when it is negative)
  and the fix invocations are at most the executions.
\<close>

theorem run_tests_always_failing:
  assumes "cmd \<noteq> []"
    and "\<not> py_in ''npm'' (py_lower cmd) \<or> package_json_exists env"
    and "\<forall>j. \<exists>rc out err.
           run_outcome env j (py_split cmd) = Exited rc out err \<and> rc \<noteq> 0"
    and "\<forall>j. write_fix_ok env j \<and> copilot_ok env j"
  shows "fst (run_tests env cmd 3) = False \<and>
         test_executions (snd (run_tests env cmd 3)) = 3 \<and>
         fix_invocations (snd (run_tests env cmd 3)) = 3 \<and>
         int (test_executions (snd (run_tests env' cmd' max_attempts))) \<le> max 0 max_attempts \<and>
         fix_invocations (snd (run_tests env' cmd' max_attempts))
           \<le> test_executions (snd (run_tests env' cmd' max_attempts))"
proof -
  have loop: "run_tests env cmd 3 = run_loop env cmd (nat 3) 0 []"
    using assms(1,2) by (auto simp: run_tests_def)
  have "fst (run_loop env cmd (nat 3) 0 []) = False \<and>
        test_executions (snd (run_loop env cmd (nat 3) 0 [])) = test_executions [] + nat 3 \<and>
        fix_invocations (snd (run_loop env cmd (nat 3) 0 [])) = fix_invocations [] + nat 3"
    using assms(3,4) by (rule run_loop_all_fail)
  then have specific: "fst (run_tests env cmd 3) = False \<and>
         test_executions (snd (run_tests env cmd 3)) = 3 \<and>
         fix_invocations (snd (run_tests env cmd 3)) = 3"
    unfolding loop by (simp add: test_executions_def fix_invocations_def)
  have general: "int (test_executions (snd (run_tests env' cmd' max_attempts))) \<le> max 0 max_attempts \<and>
         fix_invocations (snd (run_tests env' cmd' max_attempts))
           \<le> test_executions (snd (run_tests env' cmd' max_attempts))"
    using run_loop_bounds[of env' cmd' "nat max_attempts" 0 "[]"]
    by (auto simp: run_tests_def test_executions_def fix_invocations_def)
  from specific general show ?thesis by blast
qed

theorem run_tests_always_failing_witness:
  "fst (run_tests always_failing_env ''pytest tests'' 3) = False \<and>
   test_executions (snd (run_tests always_failing_env ''pytest tests'' 3)) = 3 \<and>
   fix_invocations (snd (run_tests always_failing_env ''pytest tests'' 3)) = 3 \<and>
   int (test_executions (snd (run_tests always_failing_env ''pytest tests'' 1))) \<le> max 0 1 \<and>
   fix_invocations (snd (run_tests always_failing_env ''pytest tests'' 1))
     \<le> test_executions (snd (run_tests always_failing_env ''pytest tests'' 1))"
proof -
  have h1: "''pytest tests'' \<noteq> []" by simp
  have h2: "\<not> py_in ''npm'' (py_lower ''pytest tests'') \<or> package_json_exists always_failing_env"
    by code_simp
  have h3: "\<forall>j. \<exists>rc out err.
      run_outcome always_failing_env j (py_split ''pytest tests'') = Exited rc out err \<and> rc \<noteq> 0"
    by (simp add: always_failing_env_def)
  have h4: "\<forall>j. write_fix_ok always_failing_env j \<and> copilot_ok always_failing_env j"
    by (simp add: always_failing_env_def)
  show ?thesis
    by (rule run_tests_always_failing[OF h1 h2 h3 h4])
qed

theorem run_tests_fix_count_counterexample:
  "test_executions (snd (run_tests always_failing_env ''pytest tests'' 3)) = 3 \<and>
   fix_invocations (snd (run_tests always_failing_env ''pytest tests'' 3)) = 3 \<and>
   \<not> fix_invocations (snd (run_tests always_failing_env ''pytest tests'' 3)) \<le> 3 - 1"
  by code_simp

text \<open>
  C7. A command that is not skipped, exits non-zero on its first execution and 0 on its
  second, with a first fix that returns: \<open>run_tests\<close> with \<open>max_attempts = 3\<close> runs the
  command exactly twice, invokes the fix exactly once and returns \<open>True\<close>.
\<close>

theorem run_tests_fail_once:
  assumes "cmd \<noteq> []"
    and "\<not> py_in ''npm'' (py_lower cmd) \<or> package_json_exists env"
    and "\<exists>rc out err. run_outcome env 0 (py_split cmd) = Exited rc out err \<and> rc \<noteq> 0"
    and "\<exists>out err. run_outcome env 1 (py_split cmd) = Exited 0 out err"
    and "write_fix_ok env 0 \<and> copilot_ok env 0"
  shows "fst (run_tests env cmd 3) = True \<and>
         test_executions (snd (run_tests env cmd 3)) = 2 \<and>
         fix_invocations (snd (run_tests env cmd 3)) = 1"
proof -
  from assms(3) obtain rc out err where
    e0: "run_outcome env 0 (py_split cmd) = Exited rc out err" "rc \<noteq> 0" by blast
  from assms(4) obtain out' err' where
    e1: "run_outcome env 1 (py_split cmd) = Exited 0 out' err'" by blast
  have "run_tests env cmd 3 = run_loop env cmd (nat 3) 0 []"
    using assms(1,2) by (auto simp: run_tests_def)
  also have "\<dots> = (True, [TestExecuted (py_split cmd),
                          ErrorFileWrite (error_fix_content err out), FixInvoked,
                          TestExecuted (py_split cmd)])"
    unfolding three_attempts using e0 e1 assms(5) by (simp add: Let_def)
  finally show ?thesis
    by (simp add: test_executions_def fix_invocations_def is_TestExecuted_def)
qed

theorem run_tests_fail_once_witness:
  "fst (run_tests fail_once_env ''pytest tests'' 3) = True \<and>
   test_executions (snd (run_tests fail_once_env ''pytest tests'' 3)) = 2 \<and>
   fix_invocations (snd (run_tests fail_once_env ''pytest tests'' 3)) = 1"
proof -
  have h1: "''pytest tests'' \<noteq> []" by simp
  have h2: "\<not> py_in ''npm'' (py_lower ''pytest tests'') \<or> package_json_exists fail_once_env"
    by code_simp
  have h3: "\<exists>rc out err.
      run_outcome fail_once_env 0 (py_split ''pytest tests'') = Exited rc out err \<and> rc \<noteq> 0"
    by (simp add: fail_once_env_def)
  have h4: "\<exists>out err. run_outcome fail_once_env 1 (py_split ''pytest tests'') = Exited 0 out err"
    by (simp add: fail_once_env_def)
  have h5: "write_fix_ok fail_once_env 0 \<and> copilot_ok fail_once_env 0"
    by (simp add: fail_once_env_def)
  show ?thesis
    by (rule run_tests_fail_once[OF h1 h2 h3 h4 h5])
qed

text \<open>
  C8. \<open>run_tests\<close> returns \<open>True\<close> without any test execution or fix invocation when the
  test command is the empty string, and when the lowercased command contains \<open>npm\<close> while
  the project has no \<open>package.json\<close>.
\<close>

theorem run_tests_skips:
  "run_tests env [] max_attempts = (True, []) \<and>
   test_executions (snd (run_tests env [] max_attempts)) = 0 \<and>
   fix_invocations (snd (run_tests env [] max_attempts)) = 0 \<and>
   (py_in ''npm'' (py_lower cmd) \<and> \<not> package_json_exists env \<longrightarrow>
      run_tests env cmd max_attempts = (True, []) \<and>
      test_executions (snd (run_tests env cmd max_attempts)) = 0 \<and>
      fix_invocations (snd (run_tests env cmd max_attempts)) = 0)"
  by (simp add: run_tests_def test_executions_def fix_invocations_def)

theorem run_tests_skips_witness:
  "py_in ''npm'' (py_lower ''NPM test'') \<and> \<not> package_json_exists always_failing_env \<and>
   run_tests always_failing_env ''NPM test'' 3 = (True, []) \<and>
   test_executions (snd (run_tests always_failing_env ''NPM test'' 3)) = 0 \<and>
   fix_invocations (snd (run_tests always_failing_env ''NPM test'' 3)) = 0"
proof -
  have h: "py_in ''npm'' (py_lower ''NPM test'') \<and> \<not> package_json_exists always_failing_env"
    by code_simp
  show ?thesis
    using h run_tests_skips[of always_failing_env 3 "''NPM test''"] by blast
qed


section \<open>Properties of \<open>parse_structure\<close>\<close>

lemma fill_default_dict: "fill_default k d (JDict kvs) = Inr (JDict (add_default k d kvs))"
  by (simp add: fill_default_def py_contains_def setitem_key_def dict_set_def add_default_def)

lemma map_of_add_default:
  "map_of (add_default k d kvs) k' =
     (if k' = k \<and> k \<notin> fst ` set kvs then Some d else map_of kvs k')"
proof (cases "k \<in> fst ` set kvs")
  case True
  then show ?thesis by (simp add: add_default_def)
next
  case False
  then have "map_of kvs k = None" by (simp add: map_of_eq_None_iff)
  with False show ?thesis
    by (cases "map_of kvs k'") (auto simp: add_default_def map_add_def)
qed

lemma keys_add_default: "fst ` set (add_default k d kvs) = insert k (fst ` set kvs)"
  by (auto simp: add_default_def)

lemma files_with_defaults: "map_of (with_defaults kvs) ''files'' = Some (files_of kvs)"
proof (cases "map_of kvs ''files''")
  case None
  then have "''files'' \<notin> fst ` set kvs" by (simp add: map_of_eq_None_iff)
  with None show ?thesis
    by (simp add: with_defaults_def files_of_def map_of_add_default keys_add_default)
next
  case (Some v)
  then have "''files'' \<in> fst ` set kvs" by (metis map_of_eq_None_iff option.distinct(1))
  with Some show ?thesis
    by (simp add: with_defaults_def files_of_def map_of_add_default keys_add_default)
qed

lemma validate_dict:
  "validate (JDict kvs) =
     (case py_iter (files_of kvs) of
        Inl e \<Rightarrow> Inl e
      | Inr fs \<Rightarrow> (case validate_files fs of Inl e \<Rightarrow> Inl e
                    | Inr u \<Rightarrow> Inr (JDict (with_defaults kvs))))"
  using files_with_defaults[of kvs]
  unfolding with_defaults_def
  by (simp add: validate_def fill_default_dict getitem_key_def)

lemma has_required_keys_dict:
  "has_required_keys (JDict fk) = Inr (set required_keys \<subseteq> fst ` set fk)"
  by (auto simp: has_required_keys_def py_contains_def required_keys_def split: bool.splits)

lemma complete_file_keys: "complete_file f \<Longrightarrow> has_required_keys f = Inr True"
  by (cases f) (auto simp: complete_file_def has_required_keys_dict list_all_iff)

lemma validate_files_complete: "\<forall>f\<in>set fs. complete_file f \<Longrightarrow> validate_files fs = Inr ()"
  by (induction fs) (simp_all add: complete_file_keys)



lemma parse_structure_complete:
  assumes "json_loads (strip_fence s) = Some (JDict kvs)" and "files_of kvs = JList fs"
    and "\<forall>f\<in>set fs. complete_file f"
  shows "parse_structure s = Inr (JDict (with_defaults kvs))"
proof -
  have "validate_files fs = Inr ()" using assms(3) by (rule validate_files_complete)
  then show ?thesis
    using assms(1,2) by (simp add: parse_structure_def validate_dict py_iter_def)
qed



lemma loads_empty_path_text:
  "json_loads (strip_fence empty_path_text) =
     Some (JDict [(''folders'', JList []),
       (''files'', JList [JDict [(''path'', JStr []),
          (''description'', JStr ''d''), (''copilot_prompt'', JStr ''p'')]]),
       (''interactions'', JStr [])])"
  by code_simp

lemma has_required_keys_str:
  "has_required_keys (JStr s) = Inr (\<forall>k\<in>set required_keys. py_in k s)"
  by (auto simp: has_required_keys_def py_contains_def required_keys_def split: bool.splits)

lemma has_required_keys_list:
  "has_required_keys (JList xs) = Inr (\<forall>k\<in>set required_keys. JStr k \<in> set xs)"
  by (auto simp: has_required_keys_def py_contains_def required_keys_def split: bool.splits)




text \<open>
  C6, as the code has it. Validation looks at the keys of a file object, not at their
  values: a blueprint whose file objects all have the three keys is accepted, also when
  the \<open>path\<close> of one of them is the empty string.
\<close>

theorem parse_structure_accepts_empty_path:
  assumes "json_loads (strip_fence s) = Some (JDict kvs)" and "files_of kvs = JList fs"
    and "\<forall>f\<in>set fs. complete_file f"
    and "JDict fk \<in> set fs" and "map_of fk ''path'' = Some (JStr [])"
  shows "parse_structure s = Inr (JDict (with_defaults kvs))"
  using assms(1,2,3) by (rule parse_structure_complete)

theorem parse_structure_accepts_empty_path_witness:
  "parse_structure empty_path_text =
     Inr (JDict [(''folders'', JList []),
       (''files'', JList [JDict [(''path'', JStr []),
          (''description'', JStr ''d''), (''copilot_prompt'', JStr ''p'')]]),
       (''interactions'', JStr [])])"
proof -
  let ?fk = "[(''path'', JStr []), (''description'', JStr ''d''), (''copilot_prompt'', JStr ''p'')]"
  let ?kvs = "[(''folders'', JList []), (''files'', JList [JDict ?fk]), (''interactions'', JStr [])]"
  have h2: "files_of ?kvs = JList [JDict ?fk]" by (simp add: files_of_def)
  have h3: "\<forall>f\<in>set [JDict ?fk]. complete_file f"
    by (simp add: complete_file_def required_keys_def)
  have h4: "JDict ?fk \<in> set [JDict ?fk]" by simp
  have h5: "map_of ?fk ''path'' = Some (JStr [])" by simp
  have w: "with_defaults ?kvs = ?kvs" by (simp add: with_defaults_def add_default_def)
  show ?thesis
    using parse_structure_accepts_empty_path[OF loads_empty_path_text h2 h3 h4 h5]
    unfolding w .
qed

theorem parse_structure_empty_path_counterexample:
  "\<not> isl (parse_structure empty_path_text)"
  by code_simp


section \<open>Properties of \<open>ask\<close> and of the acquisition\<close>

lemma attempts: "enumerate 1 timeouts = [(1, 30), (2, 60), (3, 90)]"
  by (simp add: timeouts_def eval_nat_numeral)

lemma ask_loop_retry:
  "retryable (net a t) \<Longrightarrow>
   ask_loop net self topic ((a, t) # rest) =
     (if a = length timeouts
      then (Inr (Some (fst (get_fallback_structure self topic))),
            snd (get_fallback_structure self topic))
      else ask_loop net self topic rest)"
  by (cases "net a t")
     (auto simp: retryable_def Let_def split: sum.splits prod.splits)

lemma ask_all_retryable:
  assumes "retryable (net 1 30)" "retryable (net 2 60)" "retryable (net 3 90)"
  shows "fst (ask net self topic) = Inr (Some (fst (get_fallback_structure self topic)))"
  using assms unfolding ask_def attempts
  by (simp add: ask_loop_retry timeouts_def del: ask_loop.simps)

text \<open>
  C4, as the code has it. When \<open>ask\<close> returns a text that \<open>json.loads\<close> rejects after
  the cleaning of \<open>parse_structure\<close> (white space and code fence stripped),
  \<open>parse_structure\<close> re-raises the \<open>JSONDecodeError\<close> and the acquisition fails with it: no
  fallback replaces the text. The fallback blueprint is what \<open>ask\<close> returns when each of
  the three attempts ends in a timeout, a request error, or a \<open>KeyError\<close> or \<open>IndexError\<close>
  on the shape of the response.
\<close>

theorem acquire_unparseable:
  "(fst (ask net new_planner topic) = Inr (Some content) \<and>
      json_loads (strip_fence content) = None
      \<longrightarrow> acquire_blueprint net topic = Inl JSONDecodeError) \<and>
   (retryable (net' 1 30) \<and> retryable (net' 2 60) \<and> retryable (net' 3 90)
      \<longrightarrow> fst (ask net' self topic') = Inr (Some (fst (get_fallback_structure self topic'))))"
  using ask_all_retryable[of net' self topic']
  by (simp add: acquire_blueprint_def parse_structure_def)

theorem acquire_unparseable_witness:
  "acquire_blueprint chatty_net ''todo list'' = Inl JSONDecodeError \<and>
   fst (ask down_net new_planner ''todo list'')
     = Inr (Some (fst (get_fallback_structure new_planner ''todo list'')))"
proof -
  have h1: "fst (ask chatty_net new_planner ''todo list'') = Inr (Some ''I cannot help with that.'')"
    by code_simp
  have h2: "json_loads (strip_fence ''I cannot help with that.'') = None"
    by code_simp
  have h3: "retryable (down_net 1 30) \<and> retryable (down_net 2 60) \<and> retryable (down_net 3 90)"
    by (simp add: retryable_def down_net_def)
  from acquire_unparseable[of chatty_net "''todo list''" "''I cannot help with that.''"
      down_net new_planner "''todo list''"] h1 h2 h3
  show ?thesis by blast
qed

theorem acquire_unparseable_counterexample:
  "acquire_blueprint chatty_net ''weather website'' = Inl JSONDecodeError"
  by code_simp


section \<open>Properties of the fallback planner\<close>

lemma fallback_step:
  assumes "planner_inv p"
  shows "fst (get_fallback_structure p topic)
           = json_dumps (structure_json (fallback_blueprint topic))"
    and "planner_inv (snd (get_fallback_structure p topic))"
proof -
  let ?new = "''Create a Python application for '' @ topic
                @ '' with proper structure and functionality''"
  have fs: "fallback_structure p = fallback_structure new_planner"
    and p0: "path (objs p 0) = ''src/main.py''"
    and d0: "description (objs p 0) = description main_file"
    and o1: "objs p 1 = test_file" and o2: "objs p 2 = readme_file"
    using assms by (simp_all add: planner_inv_def)
  have cust: "customize topic [0, 1, 2] (objs p)
                = (objs p)(0 := (objs p 0)\<lparr>copilot_prompt := ?new\<rparr>)"
    using p0 o1 o2 by (simp add: customize_def test_file_def readme_file_def)
  have m: "(objs p 0)\<lparr>copilot_prompt := ?new\<rparr> = main_file\<lparr>copilot_prompt := ?new\<rparr>"
    using p0 d0 by (cases "objs p 0") (simp add: main_file_def)
  show "fst (get_fallback_structure p topic)
          = json_dumps (structure_json (fallback_blueprint topic))"
    using fs cust m o1 o2
    by (simp add: get_fallback_structure_def fallback_blueprint_def Let_def new_planner_def
        resolve_def)
  show "planner_inv (snd (get_fallback_structure p topic))"
    using fs cust m o1 o2 assms
    by (simp add: get_fallback_structure_def Let_def new_planner_def planner_inv_def
        main_file_def)
qed

lemma planner_inv_new: "planner_inv new_planner"
  by (simp add: planner_inv_def new_planner_def main_file_def)

lemma reachable_inv: "reachable p \<Longrightarrow> planner_inv p"
  by (induction rule: reachable.induct) (simp_all add: planner_inv_new fallback_step(2))

lemma fallback_text:
  "reachable p \<Longrightarrow>
   fst (get_fallback_structure p topic) = json_dumps (structure_json (fallback_blueprint topic))"
  using reachable_inv fallback_step(1) by blast

text \<open>
  C9. For every topic, a second call of the fallback planner with the same topic, on the
  planner as the first call left it, returns the same string as the first call. This
  holds in every state that a planner can be in (a new planner, or one on which the
  fallback was called any number of times with any topics), the generic branch with its
  assignment to the shared file dictionary included.
\<close>

theorem fallback_deterministic:
  "reachable self \<Longrightarrow>
   fst (get_fallback_structure (snd (get_fallback_structure self topic)) topic)
     = fst (get_fallback_structure self topic)"
proof -
  assume r: "reachable self"
  then have "reachable (snd (get_fallback_structure self topic))" by (rule reachable_call)
  then show ?thesis using r by (simp add: fallback_text)
qed

theorem fallback_deterministic_witness:
  "reachable new_planner \<and>
   fst (get_fallback_structure (snd (get_fallback_structure new_planner ''todo list''))
          ''todo list'')
     = fst (get_fallback_structure new_planner ''todo list'')"
  using fallback_deterministic[OF reachable_new, of "''todo list''"] reachable_new by blast


section \<open>Properties of \<open>create_structure\<close>\<close>

lemma strip_chars_empty_iff: "strip_chars cs s = [] \<longleftrightarrow> set s \<subseteq> set cs"
proof
  let ?P = "\<lambda>c. c \<in> set cs"
  let ?d = "dropWhile ?P s"
  assume e: "strip_chars cs s = []"
  have "?d = []"
  proof (rule ccontr)
    assume ne: "?d \<noteq> []"
    then have h: "\<not> ?P (hd ?d)" by (rule hd_dropWhile)
    from e have "dropWhile ?P (rev ?d) = []" unfolding strip_chars_def rev_is_Nil_conv .
    then have "\<forall>c\<in>set (rev ?d). ?P c" unfolding dropWhile_eq_Nil_conv .
    moreover have "hd ?d \<in> set (rev ?d)" unfolding set_rev using ne by (rule hd_in_set)
    ultimately show False using h by blast
  qed
  then have "\<forall>c\<in>set s. ?P c" unfolding dropWhile_eq_Nil_conv .
  then show "set s \<subseteq> set cs" by blast
next
  assume "set s \<subseteq> set cs"
  then have "\<forall>c\<in>set s. c \<in> set cs" by blast
  then have "dropWhile (\<lambda>c. c \<in> set cs) s = []" unfolding dropWhile_eq_Nil_conv .
  then show "strip_chars cs s = []" by (simp only: strip_chars_def dropWhile.simps rev.simps)
qed

lemma re_sub_char:
  "(if c \<in> set illegal_chars then CHR ''_'' else c) \<in> {CHR ''.'', CHR '' ''}
     \<longleftrightarrow> c \<in> {CHR ''.'', CHR '' ''}"
  by (simp add: illegal_chars_def DQ_def BSL_def)

lemma sanitize_name_empty_iff:
  "sanitize_name topic = [] \<longleftrightarrow> set topic \<subseteq> {CHR ''.'', CHR '' ''}"
proof -
  have "sanitize_name topic = [] \<longleftrightarrow> set (re_sub_illegal topic) \<subseteq> {CHR ''.'', CHR '' ''}"
    by (simp add: sanitize_name_def strip_chars_empty_iff)
  also have "\<dots> \<longleftrightarrow> (\<forall>c\<in>set topic.
      (if c \<in> set illegal_chars then CHR ''_'' else c) \<in> {CHR ''.'', CHR '' ''})"
    unfolding re_sub_illegal_def by (simp only: set_map image_subset_iff)
  also have "\<dots> \<longleftrightarrow> set topic \<subseteq> {CHR ''.'', CHR '' ''}"
    unfolding re_sub_char by blast
  finally show ?thesis .
qed

lemma joinpath_empty: "joinpath base [] = base"
  by (simp add: joinpath_def startswith_def path_parts_def)

lemma create_structure_empty_name_removes:
  assumes "sanitize_name topic = []" and "os_exists sys desktop_path fs"
    and "os_rmtree sys desktop_path fs = Inl e"
  shows "create_structure sys desktop_path topic s fs = Inl e"
  using assms by (simp add: create_structure_def joinpath_empty)


text \<open>
  C3. A topic of dots and spaces only has the empty sanitized name. \<open>create_structure\<close>
  does not look at the name: the project path is then the desktop path itself, the
  existing desktop directory is removed with everything on it, and the project is built
  in its place. No error is raised.
\<close>

theorem create_structure_empty_name:
  "sanitize_name ''...'' = [] \<and>
   create_structure tree_os desktop ''...'' small_blueprint desktop_before =
     Inr (desktop,
          [([''home''], Dir), ([''home'', ''user''], Dir), (desktop, Dir),
           (desktop @ [''src''], Dir),
           (desktop @ [''src'', ''main.py''], File (file_stub (hd (files small_blueprint)))),
           (desktop @ [''README.md''], File (readme_content ''...'' small_blueprint))])"
  by code_simp


section \<open>Decoding what \<open>json.dumps\<close> has written\<close>

subsection \<open>Strings\<close>

lemma hex_val_digit: "d < 16 \<Longrightarrow> hex_val (hex_digit d) = Some d"
  by (simp add: hex_digit_def hex_val_def)

lemma hex4_of_char:
  "hex4 (CHR ''0'') (CHR ''0'') (hex_digit ((of_char c :: nat) div 16))
        (hex_digit ((of_char c :: nat) mod 16)) = Some (of_char c)"
proof -
  have z: "hex_val (CHR ''0'') = Some 0" by (simp add: hex_val_def)
  have "(of_char c :: nat) < 16 * 16" using nat_of_char_less_256[of c] by simp
  then have "(of_char c :: nat) div 16 < 16" by (rule less_mult_imp_div_less)
  then have h: "hex_val (hex_digit ((of_char c :: nat) div 16)) = Some ((of_char c :: nat) div 16)"
    by (rule hex_val_digit)
  have l: "hex_val (hex_digit ((of_char c :: nat) mod 16)) = Some ((of_char c :: nat) mod 16)"
    by (rule hex_val_digit) simp
  show ?thesis unfolding hex4_def z h l by simp
qed

lemma scan_string_escape_char:
  "scan_string (escape_char c @ t) =
     (case scan_string t of None \<Rightarrow> None | Some (s, r) \<Rightarrow> Some (c # s, r))"
proof -
  consider (dq) "c = DQ" | (bsl) "c = BSL" | (nl) "c = CHR 0x0A" | (cr) "c = CHR 0x0D"
    | (tab) "c = CHR 0x09" | (bs) "c = CHR 0x08" | (ff) "c = CHR 0x0C"
    | (plain) "c \<noteq> DQ" "c \<noteq> BSL" "c \<noteq> CHR 0x0A" "c \<noteq> CHR 0x0D" "c \<noteq> CHR 0x09"
        "c \<noteq> CHR 0x08" "c \<noteq> CHR 0x0C" "32 \<le> (of_char c :: nat) \<and> (of_char c :: nat) \<le> 126"
    | (uni) "c \<noteq> DQ" "c \<noteq> BSL" "c \<noteq> CHR 0x0A" "c \<noteq> CHR 0x0D" "c \<noteq> CHR 0x09"
        "c \<noteq> CHR 0x08" "c \<noteq> CHR 0x0C" "\<not> (32 \<le> (of_char c :: nat) \<and> (of_char c :: nat) \<le> 126)"
    by blast
  then show ?thesis
  proof cases
    case dq
    show ?thesis unfolding dq DQ_def BSL_def
      by (simp add: escape_char_def unescape_def DQ_def BSL_def)
  next
    case bsl
    show ?thesis unfolding bsl DQ_def BSL_def
      by (simp add: escape_char_def unescape_def DQ_def BSL_def)
  next
    case nl
    show ?thesis unfolding nl DQ_def BSL_def
      by (simp add: escape_char_def unescape_def DQ_def BSL_def)
  next
    case cr
    show ?thesis unfolding cr DQ_def BSL_def
      by (simp add: escape_char_def unescape_def DQ_def BSL_def)
  next
    case tab
    show ?thesis unfolding tab DQ_def BSL_def
      by (simp add: escape_char_def unescape_def DQ_def BSL_def)
  next
    case bs
    show ?thesis unfolding bs DQ_def BSL_def
      by (simp add: escape_char_def unescape_def DQ_def BSL_def)
  next
    case ff
    show ?thesis unfolding ff DQ_def BSL_def
      by (simp add: escape_char_def unescape_def DQ_def BSL_def)
  next
    case plain
    then have "escape_char c = [c]" by (simp add: escape_char_def)
    moreover have "\<not> (of_char c :: nat) < 32" using plain(8) by simp
    ultimately show ?thesis using plain(1,2) by simp
  next
    case uni
    then have e: "escape_char c = [BSL, CHR ''u'', CHR ''0'', CHR ''0'',
            hex_digit ((of_char c :: nat) div 16), hex_digit ((of_char c :: nat) mod 16)]"
      by (simp add: escape_char_def)
    have b: "BSL \<noteq> DQ" by (simp add: DQ_def BSL_def)
    show ?thesis unfolding e using b hex4_of_char[of c]
      by (simp add: nat_of_char_less_256 split: option.splits)
  qed
qed

lemma scan_string_quote:
  "scan_string (concat (map escape_char s) @ DQ # rest) = Some (s, rest)"
  by (induction s) (simp_all add: scan_string_escape_char del: scan_string.simps(2), simp)

subsection \<open>White space and the shape of the text\<close>

lemma ws_chars:
  "\<not> is_json_ws DQ" "\<not> is_json_ws (CHR ''['')" "\<not> is_json_ws (CHR ''{'')"
  "\<not> is_json_ws (CHR '']'')" "\<not> is_json_ws (CHR ''}'')" "\<not> is_json_ws (CHR '','')"
  "\<not> is_json_ws (CHR '':'')" "is_json_ws (CHR '' '')" "is_json_ws NL"
  by (simp_all add: is_json_ws_def DQ_def NL_def)

lemma skip_ws_nonws: "\<not> is_json_ws c \<Longrightarrow> skip_ws (c # t) = c # t"
  by (simp add: skip_ws_def)

lemma skip_ws_indent: "\<not> is_json_ws c \<Longrightarrow> skip_ws (newline_indent l @ c # t) = c # t"
proof -
  assume c: "\<not> is_json_ws c"
  have "\<forall>x\<in>set (newline_indent l). is_json_ws x"
    using ws_chars(8,9) by (auto simp: newline_indent_def)
  then have "dropWhile is_json_ws (newline_indent l @ c # t) = dropWhile is_json_ws (c # t)"
    by (intro dropWhile_append2) blast
  then show ?thesis using c by (simp add: skip_ws_def)
qed

lemma skip_ws_space: "\<not> is_json_ws c \<Longrightarrow> skip_ws (CHR '' '' # c # t) = c # t"
  using ws_chars(8) by (simp add: skip_ws_def)

lemma length_newline_indent: "length (newline_indent l) = Suc (2 * l)"
  by (simp add: newline_indent_def)

lemma dumps_head: "plain v \<Longrightarrow> \<exists>c t. dumps_at l v = c # t \<and> opener c"
  by (cases v) (auto simp: opener_def quote_def)

lemma opener_facts: "opener c \<Longrightarrow> \<not> is_json_ws c \<and> c \<noteq> CHR '']'' \<and> c \<noteq> CHR ''}''"
  using ws_chars by (auto simp: opener_def DQ_def)

lemma parse_value_string:
  "parse_value (Suc n) (DQ # t) =
     (case scan_string t of None \<Rightarrow> None | Some (s, r) \<Rightarrow> Some (JStr s, r))"
  by simp

lemma parse_value_list:
  "parse_value (Suc n) (CHR ''['' # t) =
     (case skip_ws t of
        [] \<Rightarrow> None
      | d # r \<Rightarrow>
          if d = CHR '']'' then Some (JList [], r)
          else (case parse_elems n (d # r) of
                  None \<Rightarrow> None
                | Some (xs, r') \<Rightarrow> Some (JList xs, r')))"
  by (simp add: DQ_def)

lemma parse_value_dict:
  "parse_value (Suc n) (CHR ''{'' # t) =
     (case skip_ws t of
        [] \<Rightarrow> None
      | d # r \<Rightarrow>
          if d = CHR ''}'' then Some (JDict [], r)
          else (case parse_members n (d # r) of
                  None \<Rightarrow> None
                | Some (ps, r') \<Rightarrow> Some (JDict (dict_of_pairs ps), r')))"
  by (simp add: DQ_def)

lemma join_items:
  "join_with ('','' @ newline_indent (Suc l)) (map (dumps_at (Suc l)) (x # xs)) @ newline_indent l @ '']''
     = dumps_at (Suc l) x @ items_text l xs"
  by (induction xs arbitrary: x) simp_all

lemma join_pairs:
  "join_with ('','' @ newline_indent (Suc l))
      (map (\<lambda>(k, v). quote k @ '': '' @ dumps_at (Suc l) v) (kv # kvs)) @ newline_indent l @ ''}''
     = quote (fst kv) @ '': '' @ dumps_at (Suc l) (snd kv) @ pairs_text l kvs"
  by (induction kvs arbitrary: kv) (simp_all add: case_prod_beta)

lemma dumps_list_cons:
  "dumps_at l (JList (x # xs)) =
     CHR ''['' # newline_indent (Suc l) @ dumps_at (Suc l) x @ items_text l xs"
  using join_items[of l x xs] by simp

lemma dumps_dict_cons:
  "dumps_at l (JDict (kv # kvs)) =
     CHR ''{'' # newline_indent (Suc l) @ quote (fst kv) @ '': '' @ dumps_at (Suc l) (snd kv)
       @ pairs_text l kvs"
  using join_pairs[of l kv kvs] by simp

subsection \<open>Lists and dictionaries\<close>

lemma length_items_text: "2 \<le> length (items_text l xs)"
  by (cases xs) (simp_all add: length_newline_indent)

lemma length_pairs_text: "2 \<le> length (pairs_text l kvs)"
  by (cases kvs) (simp_all add: length_newline_indent)

lemma parse_elems_items:
  assumes "\<And>x l n rest. x \<in> set (x0 # xs) \<Longrightarrow> length (dumps_at l x) \<le> n
             \<Longrightarrow> parse_value n (dumps_at l x @ rest) = Some (x, rest)"
    and "\<forall>x\<in>set (x0 # xs). plain x"
    and "length (dumps_at (Suc l) x0 @ items_text l xs) \<le> n"
  shows "parse_elems n (dumps_at (Suc l) x0 @ items_text l xs @ rest) = Some (x0 # xs, rest)"
  using assms
proof (induction xs arbitrary: x0 n)
  case Nil
  from Nil.prems(3) obtain m where n: "n = Suc m" and m: "length (dumps_at (Suc l) x0) \<le> m"
    by (cases n) (simp_all add: length_newline_indent)
  have v: "parse_value m (dumps_at (Suc l) x0 @ (newline_indent l @ CHR '']'' # rest))
             = Some (x0, newline_indent l @ CHR '']'' # rest)"
    using Nil.prems(1)[of x0 "Suc l" m] m by simp
  have s: "skip_ws (newline_indent l @ CHR '']'' # rest) = CHR '']'' # rest"
    by (rule skip_ws_indent) (rule ws_chars)
  show ?case unfolding n using v s by simp
next
  case (Cons y ys)
  let ?D = "dumps_at (Suc l)"
  let ?tail = "?D y @ items_text l ys @ rest"
  from Cons.prems(3) obtain m where n: "n = Suc m"
    and m: "length (?D x0) \<le> m" and m': "length (?D y @ items_text l ys) \<le> m"
    by (cases n) (simp_all add: length_newline_indent)
  have v: "parse_value m (?D x0 @ (CHR '','' # newline_indent (Suc l) @ ?tail))
             = Some (x0, CHR '','' # newline_indent (Suc l) @ ?tail)"
    using Cons.prems(1)[of x0 "Suc l" m] m by simp
  have s1: "skip_ws (CHR '','' # newline_indent (Suc l) @ ?tail)
              = CHR '','' # newline_indent (Suc l) @ ?tail"
    by (rule skip_ws_nonws) (rule ws_chars)
  from Cons.prems(2) have "plain y" by simp
  then obtain c t where h: "?D y = c # t" "opener c" using dumps_head by blast
  then have s2: "skip_ws (newline_indent (Suc l) @ ?tail) = ?tail"
    using skip_ws_indent[of c "Suc l" "t @ items_text l ys @ rest"] opener_facts[of c] by simp
  have r: "parse_elems m ?tail = Some (y # ys, rest)"
    using Cons.IH[of y m] Cons.prems(1,2) m' by simp
  show ?case unfolding n using v s1 s2 r by simp
qed

lemma parse_members_pairs:
  assumes "\<And>kv l n rest. kv \<in> set (kv0 # kvs) \<Longrightarrow> length (dumps_at l (snd kv)) \<le> n
             \<Longrightarrow> parse_value n (dumps_at l (snd kv) @ rest) = Some (snd kv, rest)"
    and "\<forall>kv\<in>set (kv0 # kvs). plain (snd kv)"
    and "length (quote (fst kv0) @ '': '' @ dumps_at (Suc l) (snd kv0) @ pairs_text l kvs) \<le> n"
  shows "parse_members n (quote (fst kv0) @ '': '' @ dumps_at (Suc l) (snd kv0)
                            @ pairs_text l kvs @ rest) = Some (kv0 # kvs, rest)"
  using assms
proof (induction kvs arbitrary: kv0 n)
  case Nil
  let ?D = "dumps_at (Suc l)"
  let ?after = "newline_indent l @ CHR ''}'' # rest"
  from Nil.prems(3) obtain m where n: "n = Suc m" and m: "length (?D (snd kv0)) \<le> m"
    by (cases n) (simp_all add: length_newline_indent quote_def)
  from Nil.prems(2) have "plain (snd kv0)" by simp
  then obtain c t where h: "?D (snd kv0) = c # t" "opener c" using dumps_head by blast
  have k: "scan_string (concat (map escape_char (fst kv0)) @ DQ # '': '' @ ?D (snd kv0) @ ?after)
             = Some (fst kv0, '': '' @ ?D (snd kv0) @ ?after)"
    by (rule scan_string_quote)
  have s1: "skip_ws ('': '' @ ?D (snd kv0) @ ?after) = CHR '':'' # CHR '' '' # ?D (snd kv0) @ ?after"
    using skip_ws_nonws[of "CHR '':''"] ws_chars by simp
  have s2: "skip_ws (CHR '' '' # ?D (snd kv0) @ ?after) = ?D (snd kv0) @ ?after"
    using skip_ws_space[of c "t @ ?after"] h opener_facts[of c] by simp
  have v: "parse_value m (?D (snd kv0) @ ?after) = Some (snd kv0, ?after)"
    using Nil.prems(1)[of kv0 "Suc l" m] m by simp
  have s3: "skip_ws ?after = CHR ''}'' # rest"
    by (rule skip_ws_indent) (rule ws_chars)
  show ?case unfolding n using k s1 s2 v s3 by (simp add: quote_def)
next
  case (Cons kv1 kvs)
  let ?D = "dumps_at (Suc l)"
  let ?tail = "quote (fst kv1) @ '': '' @ ?D (snd kv1) @ pairs_text l kvs @ rest"
  let ?after = "CHR '','' # newline_indent (Suc l) @ ?tail"
  from Cons.prems(3) obtain m where n: "n = Suc m" and m: "length (?D (snd kv0)) \<le> m"
    and m': "length (quote (fst kv1) @ '': '' @ ?D (snd kv1) @ pairs_text l kvs) \<le> m"
    by (cases n) (simp_all add: length_newline_indent quote_def)
  from Cons.prems(2) have "plain (snd kv0)" by simp
  then obtain c t where h: "?D (snd kv0) = c # t" "opener c" using dumps_head by blast
  have k: "scan_string (concat (map escape_char (fst kv0)) @ DQ # '': '' @ ?D (snd kv0) @ ?after)
             = Some (fst kv0, '': '' @ ?D (snd kv0) @ ?after)"
    by (rule scan_string_quote)
  have s1: "skip_ws ('': '' @ ?D (snd kv0) @ ?after) = CHR '':'' # CHR '' '' # ?D (snd kv0) @ ?after"
    using skip_ws_nonws[of "CHR '':''"] ws_chars by simp
  have s2: "skip_ws (CHR '' '' # ?D (snd kv0) @ ?after) = ?D (snd kv0) @ ?after"
    using skip_ws_space[of c "t @ ?after"] h opener_facts[of c] by simp
  have v: "parse_value m (?D (snd kv0) @ ?after) = Some (snd kv0, ?after)"
    using Cons.prems(1)[of kv0 "Suc l" m] m by simp
  have s3: "skip_ws ?after = ?after"
    by (rule skip_ws_nonws) (rule ws_chars)
  have s4: "skip_ws (newline_indent (Suc l) @ ?tail) = ?tail"
    using skip_ws_indent[of DQ "Suc l"] ws_chars(1) by (simp add: quote_def)
  have r: "parse_members m ?tail = Some (kv1 # kvs, rest)"
    using Cons.IH[of kv1 m] Cons.prems(1,2) m' by simp
  show ?case unfolding n using k s1 s2 v s3 s4 r by (simp add: quote_def)
qed

lemma dict_set_fresh: "k \<notin> fst ` set d \<Longrightarrow> dict_set d k v = d @ [(k, v)]"
  by (simp add: dict_set_def)

lemma foldl_dict_set_distinct:
  "distinct (map fst (d @ ps)) \<Longrightarrow> foldl (\<lambda>d (k, v). dict_set d k v) d ps = d @ ps"
proof (induction ps arbitrary: d)
  case Nil
  then show ?case by simp
next
  case (Cons p ps)
  obtain k v where p: "p = (k, v)" by (cases p)
  from Cons.prems have fresh: "k \<notin> fst ` set d" unfolding p by auto
  from Cons.prems have "distinct (map fst ((d @ [(k, v)]) @ ps))" unfolding p by simp
  then have "foldl (\<lambda>d (k, v). dict_set d k v) (d @ [(k, v)]) ps = (d @ [(k, v)]) @ ps"
    by (rule Cons.IH)
  then show ?case unfolding p using fresh by (simp add: dict_set_fresh)
qed

lemma dict_of_pairs_distinct: "distinct (map fst ps) \<Longrightarrow> dict_of_pairs ps = ps"
  using foldl_dict_set_distinct[of "[]" ps] by (simp add: dict_of_pairs_def)

lemma parse_value_dumps:
  "plain v \<Longrightarrow> length (dumps_at l v) \<le> n \<Longrightarrow> parse_value n (dumps_at l v @ rest) = Some (v, rest)"
proof (induction v arbitrary: l n rest)
  case JNull
  then show ?case by simp
next
  case (JBool b)
  then show ?case by simp
next
  case (JNum lit)
  then show ?case by simp
next
  case (JStr s)
  from JStr.prems(2) obtain m where n: "n = Suc m" by (cases n) (simp_all add: quote_def)
  have "scan_string (concat (map escape_char s) @ DQ # rest) = Some (s, rest)"
    by (rule scan_string_quote)
  then show ?case unfolding n by (simp add: quote_def parse_value_string del: parse_value.simps)
next
  case (JList xs)
  show ?case
  proof (cases xs)
    case Nil
    from JList.prems(2) obtain m where n: "n = Suc m" by (cases n) (simp_all add: Nil)
    have "skip_ws (CHR '']'' # rest) = CHR '']'' # rest"
      by (rule skip_ws_nonws) (rule ws_chars)
    then show ?thesis unfolding n Nil by (simp add: parse_value_list del: parse_value.simps)
  next
    case (Cons x0 ys)
    let ?D = "dumps_at (Suc l)"
    let ?body = "?D x0 @ items_text l ys @ rest"
    from JList.prems(2) obtain m where n: "n = Suc m"
      and m: "length (?D x0 @ items_text l ys) \<le> m"
      unfolding Cons dumps_list_cons by (cases n) (simp_all add: length_newline_indent)
    have pl: "\<forall>x\<in>set (x0 # ys). plain x" using JList.prems(1) unfolding Cons by simp
    then have "plain x0" by simp
    then obtain c t where h: "?D x0 = c # t" "opener c" using dumps_head by blast
    have s: "skip_ws (newline_indent (Suc l) @ ?body) = c # t @ items_text l ys @ rest"
      using skip_ws_indent[of c "Suc l" "t @ items_text l ys @ rest"] h opener_facts[of c] by simp
    have "parse_elems m ?body = Some (x0 # ys, rest)"
    proof (rule parse_elems_items)
      fix x l' n' rest'
      assume "x \<in> set (x0 # ys)" and "length (dumps_at l' x) \<le> n'"
      then show "parse_value n' (dumps_at l' x @ rest') = Some (x, rest')"
        using JList.IH[of x l' n' rest'] pl unfolding Cons by simp
    qed (use pl m in simp_all)
    then have e: "parse_elems m (c # t @ items_text l ys @ rest) = Some (x0 # ys, rest)"
      using h by simp
    have "dumps_at l (JList xs) @ rest = CHR ''['' # newline_indent (Suc l) @ ?body"
      unfolding Cons dumps_list_cons by simp
    then show ?thesis unfolding n using s e opener_facts[OF h(2)] Cons
      by (simp add: parse_value_list del: parse_value.simps dumps_at.simps)
  qed
next
  case (JDict kvs)
  show ?case
  proof (cases kvs)
    case Nil
    from JDict.prems(2) obtain m where n: "n = Suc m" by (cases n) (simp_all add: Nil)
    have "skip_ws (CHR ''}'' # rest) = CHR ''}'' # rest"
      by (rule skip_ws_nonws) (rule ws_chars)
    then show ?thesis unfolding n Nil by (simp add: parse_value_dict del: parse_value.simps)
  next
    case (Cons kv0 ps)
    let ?D = "dumps_at (Suc l)"
    let ?body = "quote (fst kv0) @ '': '' @ ?D (snd kv0) @ pairs_text l ps @ rest"
    from JDict.prems(2) obtain m where n: "n = Suc m"
      and m: "length (quote (fst kv0) @ '': '' @ ?D (snd kv0) @ pairs_text l ps) \<le> m"
      unfolding Cons dumps_dict_cons by (cases n) (simp_all add: length_newline_indent)
    have pl: "\<forall>kv\<in>set (kv0 # ps). plain (snd kv)" and d: "distinct (map fst kvs)"
      using JDict.prems(1) unfolding Cons by simp_all
    have q: "?body = DQ # concat (map escape_char (fst kv0)) @ DQ # '': '' @ ?D (snd kv0) @ pairs_text l ps @ rest"
      by (simp add: quote_def)
    have s: "skip_ws (newline_indent (Suc l) @ ?body) = ?body"
      unfolding q using skip_ws_indent[of DQ "Suc l"] ws_chars(1) by simp
    have e: "parse_members m ?body = Some (kv0 # ps, rest)"
    proof (rule parse_members_pairs)
      fix kv l' n' rest'
      assume a: "kv \<in> set (kv0 # ps)" and b: "length (dumps_at l' (snd kv)) \<le> n'"
      have c: "snd kv \<in> Basic_BNFs.snds kv" by (cases kv) simp
      have k: "kv \<in> set kvs" using a unfolding Cons .
      have "plain (snd kv)" using pl a by blast
      with k c show "parse_value n' (dumps_at l' (snd kv) @ rest') = Some (snd kv, rest')"
        using b by (rule JDict.IH)
    qed (use pl m in simp_all)
    have b: "DQ \<noteq> CHR ''}''" by (simp add: DQ_def)
    have t: "dumps_at l (JDict kvs) @ rest = CHR ''{'' # newline_indent (Suc l) @ ?body"
      unfolding Cons dumps_dict_cons by simp
    have "parse_value (Suc m) (CHR ''{'' # newline_indent (Suc l) @ ?body) = Some (JDict kvs, rest)"
      unfolding parse_value_dict s using e b d dict_of_pairs_distinct[of kvs] unfolding q Cons
      by simp
    then show ?thesis unfolding n t .
  qed
qed

lemma json_loads_dumps: "plain v \<Longrightarrow> json_loads (json_dumps v) = Some v"
proof -
  assume p: "plain v"
  then obtain c t where h: "dumps_at 0 v = c # t" "opener c" using dumps_head by blast
  then have s: "skip_ws (dumps_at 0 v) = dumps_at 0 v"
    using skip_ws_nonws[of c t] opener_facts[of c] by simp
  have "parse_value (2 * length (dumps_at 0 v) + 2) (dumps_at 0 v @ []) = Some (v, [])"
    using p by (rule parse_value_dumps) simp
  then show ?thesis unfolding json_loads_def json_dumps_def s by (simp add: skip_ws_def)
qed


section \<open>The fallback blueprint passes \<open>parse_structure\<close>\<close>

lemma strip_fence_braces: "strip_fence (CHR ''{'' # m @ ''}'') = CHR ''{'' # m @ ''}''"
proof -
  let ?t = "CHR ''{'' # m @ ''}''"
  have a: "\<not> py_isspace (CHR ''{'')" "\<not> py_isspace (CHR ''}'')" by (simp_all add: py_isspace_def)
  have r: "rev ?t = CHR ''}'' # rev m @ ''{''" by simp
  have "dropWhile py_isspace ?t = ?t" using a(1) by simp
  then have s: "py_strip ?t = ?t" unfolding py_strip_def r using a(2) by simp
  have p: "\<not> startswith ?t ''```json''" by (simp add: startswith_def)
  have "\<not> prefix (rev ''```'') (rev ?t)" unfolding r by simp
  then have q: "\<not> endswith ?t ''```''" unfolding endswith_def suffix_to_prefix .
  show ?thesis unfolding strip_fence_def s Let_def using p q by simp
qed

lemma json_dumps_dict: "kvs \<noteq> [] \<Longrightarrow> \<exists>m. json_dumps (JDict kvs) = CHR ''{'' # m @ ''}''"
  by (simp add: json_dumps_def)

lemma plain_structure_json: "plain (structure_json b)"
  by (auto simp: structure_json_def file_json_def)

lemma complete_file_json: "complete_file (file_json f)"
  by (simp add: complete_file_def file_json_def required_keys_def)

lemma validate_structure_json: "validate (structure_json b) = Inr (structure_json b)"
proof -
  let ?kvs = "[(''folders'', JList (map JStr (folders b))),
               (''files'', JList (map file_json (files b))),
               (''interactions'', JStr (interactions b)),
               (''test_command'', JStr (test_command b))]"
  have f: "files_of ?kvs = JList (map file_json (files b))" by (simp add: files_of_def)
  have w: "with_defaults ?kvs = ?kvs" by (simp add: with_defaults_def add_default_def)
  have "validate_files (map file_json (files b)) = Inr ()"
    by (rule validate_files_complete) (simp add: complete_file_json)
  then show ?thesis unfolding structure_json_def validate_dict f w by (simp add: py_iter_def)
qed

lemma parse_structure_dumps:
  "parse_structure (json_dumps (structure_json b)) = Inr (structure_json b)"
proof -
  obtain m where m: "json_dumps (structure_json b) = CHR ''{'' # m @ ''}''"
    using json_dumps_dict[of "[(''folders'', JList (map JStr (folders b))),
               (''files'', JList (map file_json (files b))),
               (''interactions'', JStr (interactions b)),
               (''test_command'', JStr (test_command b))]"]
    unfolding structure_json_def by blast
  have "strip_fence (json_dumps (structure_json b)) = json_dumps (structure_json b)"
    unfolding m by (rule strip_fence_braces)
  moreover have "json_loads (json_dumps (structure_json b)) = Some (structure_json b)"
    using plain_structure_json by (rule json_loads_dumps)
  ultimately show ?thesis by (simp add: parse_structure_def validate_structure_json)
qed

text \<open>
  C10. For every topic and every state that a planner can be in, \<open>parse_structure\<close>
  applied to the string that the fallback planner returns does not raise: it returns the
  blueprint that was serialised, whose \<open>files\<close> are file objects with the three required
  keys each.
\<close>

theorem fallback_round_trip:
  "reachable self \<Longrightarrow>
   parse_structure (fst (get_fallback_structure self topic))
     = Inr (structure_json (fallback_blueprint topic)) \<and>
   getitem_key (structure_json (fallback_blueprint topic)) ''files''
     = Inr (JList (map file_json (files (fallback_blueprint topic)))) \<and>
   (\<forall>f\<in>set (map file_json (files (fallback_blueprint topic))). complete_file f)"
proof -
  assume "reachable self"
  then have "fst (get_fallback_structure self topic)
               = json_dumps (structure_json (fallback_blueprint topic))"
    by (rule fallback_text)
  then have p: "parse_structure (fst (get_fallback_structure self topic))
                  = Inr (structure_json (fallback_blueprint topic))"
    by (simp add: parse_structure_dumps)
  have g: "getitem_key (structure_json (fallback_blueprint topic)) ''files''
             = Inr (JList (map file_json (files (fallback_blueprint topic))))"
    by (simp add: structure_json_def getitem_key_def)
  have c: "\<forall>f\<in>set (map file_json (files (fallback_blueprint topic))). complete_file f"
    by (simp add: complete_file_json)
  from p g c show ?thesis by blast
qed

theorem fallback_round_trip_witness:
  "reachable new_planner \<and>
   parse_structure (fst (get_fallback_structure new_planner ''todo list''))
     = Inr (structure_json (fallback_blueprint ''todo list'')) \<and>
   getitem_key (structure_json (fallback_blueprint ''todo list'')) ''files''
     = Inr (JList (map file_json (files (fallback_blueprint ''todo list'')))) \<and>
   list_all complete_file (map file_json (files (fallback_blueprint ''todo list'')))"
  using fallback_round_trip[OF reachable_new, of "''todo list''"] reachable_new
  unfolding list_all_iff by blast


section \<open>The decoder never runs short\<close>

text \<open>
  A parse that succeeds with some number of units succeeds, with the same result, with
  twice the number of characters that it reads. So \<open>json_loads\<close> returns \<open>None\<close> only for a
  text that the descent rejects, whatever the number of units.
\<close>

lemma scan_string_u:
  "scan_string (BSL # CHR ''u'' # h1 # h2 # h3 # h4 # cs2) =
     (case hex4 h1 h2 h3 h4 of
        None \<Rightarrow> None
      | Some n \<Rightarrow>
          if n < 256 then
            (case scan_string cs2 of None \<Rightarrow> None | Some (s, r) \<Rightarrow> Some (char_of n # s, r))
          else None)"
  by (simp add: DQ_def BSL_def)

lemma scan_string_u_short: "length cs1 < 4 \<Longrightarrow> scan_string (BSL # CHR ''u'' # cs1) = None"
  by (auto simp: DQ_def BSL_def split: list.splits)

lemma scan_string_esc:
  "e \<noteq> CHR ''u'' \<Longrightarrow>
   scan_string (BSL # e # cs1) =
     (case unescape e of
        None \<Rightarrow> None
      | Some y \<Rightarrow> (case scan_string cs1 of None \<Rightarrow> None | Some (s, r) \<Rightarrow> Some (y # s, r)))"
  by (simp add: DQ_def BSL_def)

lemma scan_string_char:
  "c \<noteq> DQ \<Longrightarrow> c \<noteq> BSL \<Longrightarrow>
   scan_string (c # cs) =
     (if (of_char c :: nat) < 32 then None
      else (case scan_string cs of None \<Rightarrow> None | Some (s, r) \<Rightarrow> Some (c # s, r)))"
  by simp

lemma four_elems: "4 \<le> length xs \<Longrightarrow> \<exists>a b c d ys. xs = a # b # c # d # ys"
  by (auto simp: numeral_eq_Suc Suc_le_length_iff)

lemma scan_string_shorter: "scan_string t = Some (x, r) \<Longrightarrow> length r < length t"
proof (induction "length t" arbitrary: t x r rule: less_induct)
  case less
  show ?case
  proof (cases t)
    case Nil
    with less.prems show ?thesis by simp
  next
    case (Cons c cs)
    consider (quote) "c = DQ" | (plain) "c \<noteq> DQ" "c \<noteq> BSL"
      | (bsl) "c \<noteq> DQ" "c = BSL" by blast
    then show ?thesis
    proof cases
      case quote
      with less.prems Cons show ?thesis by simp
    next
      case plain
      from less.prems obtain s' where "scan_string cs = Some (s', r)"
        unfolding Cons scan_string_char[OF plain] by (auto split: if_splits option.splits)
      then have "length r < length cs" using less.hyps[of cs s' r] Cons by simp
      then show ?thesis using Cons by simp
    next
      case bsl
      from less.prems obtain e cs1 where cs: "cs = e # cs1"
        unfolding Cons using bsl by (cases cs) auto
      show ?thesis
      proof (cases "e = CHR ''u''")
        case False
        from less.prems obtain s' where "scan_string cs1 = Some (s', r)"
          unfolding Cons cs bsl(2) scan_string_esc[OF False] by (auto split: option.splits)
        then have "length r < length cs1" using less.hyps[of cs1 s' r] Cons cs by simp
        then show ?thesis using Cons cs by simp
      next
        case True
        have "\<not> length cs1 < 4"
          using less.prems scan_string_u_short[of cs1] unfolding Cons cs bsl(2) True by auto
        then obtain h1 h2 h3 h4 cs2 where c2: "cs1 = h1 # h2 # h3 # h4 # cs2"
          using four_elems[of cs1] by auto
        from less.prems obtain s' where "scan_string cs2 = Some (s', r)"
          unfolding Cons cs bsl(2) True c2 scan_string_u
          by (auto split: option.splits if_splits)
        then have "length r < length cs2" using less.hyps[of cs2 s' r] Cons cs c2 by simp
        then show ?thesis using Cons cs c2 by simp
      qed
    qed
  qed
qed

lemma skip_ws_length: "length (skip_ws s) \<le> length s"
  by (simp add: skip_ws_def length_dropWhile_le)

lemma scan_int_shorter: "scan_int s = Some (i, r) \<Longrightarrow> length r < length s"
  by (cases s) (auto simp: scan_int_def length_dropWhile_le less_Suc_eq_le split: if_splits)

lemma scan_frac_shorter: "length (snd (scan_frac s)) \<le> length s"
  by (auto simp: scan_frac_def length_dropWhile_le le_SucI split: list.splits)

lemma scan_exp_shorter: "length (snd (scan_exp s)) \<le> length s"
  by (auto simp: scan_exp_def length_dropWhile_le le_SucI split: list.splits)

lemma scan_number_shorter: "scan_number s = Some (lit, r) \<Longrightarrow> length r < length s"
proof -
  assume a: "scan_number s = Some (lit, r)"
  define s0 where "s0 = (case s of c # cs \<Rightarrow> if c = CHR ''-'' then cs else s | [] \<Rightarrow> s)"
  have l0: "length s0 \<le> length s" by (auto simp: s0_def split: list.splits)
  from a obtain i s1 where i: "scan_int s0 = Some (i, s1)"
    and r: "r = snd (scan_exp (snd (scan_frac s1)))"
    by (auto simp: scan_number_def s0_def Let_def split: list.splits if_splits option.splits prod.splits)
  have "length r \<le> length s1"
    unfolding r using scan_exp_shorter[of "snd (scan_frac s1)"] scan_frac_shorter[of s1] by linarith
  with scan_int_shorter[OF i] l0 show ?thesis by linarith
qed

lemma parse_value_other:
  "c \<noteq> DQ \<Longrightarrow> c \<noteq> CHR ''{'' \<Longrightarrow> c \<noteq> CHR ''['' \<Longrightarrow>
   parse_value (Suc n) (c # cs) = parse_scalar (c # cs)"
  by simp

lemma keyword_shorter: "keyword w v s = Some (x, r) \<Longrightarrow> w \<noteq> [] \<Longrightarrow> length r < length s"
  by (auto simp: keyword_def prefix_def split: if_splits)

lemma parse_scalar_shorter: "parse_scalar s = Some (v, r) \<Longrightarrow> length r < length s"
  unfolding parse_scalar_def
  by (auto split: option.splits dest: scan_number_shorter keyword_shorter)

lemma adequate_value:
  assumes IHe: "\<And>s xs r. parse_elems n s = Some (xs, r) \<Longrightarrow>
      length r < length s \<and>
      (\<forall>m. 2 * (length s - length r) \<le> m \<longrightarrow> parse_elems m s = Some (xs, r))"
    and IHm: "\<And>s ps r. parse_members n s = Some (ps, r) \<Longrightarrow>
      length r < length s \<and>
      (\<forall>m. 2 * (length s - length r) \<le> m \<longrightarrow> parse_members m s = Some (ps, r))"
    and a: "parse_value (Suc n) s = Some (v, r)"
  shows "length r < length s \<and>
      (\<forall>m. 2 * (length s - length r) \<le> m \<longrightarrow> parse_value m s = Some (v, r))"
proof (cases s)
  case Nil
  with a show ?thesis by simp
next
  case (Cons c cs)
  consider (str) "c = DQ" | (dict) "c = CHR ''{''" | (list) "c = CHR ''[''"
    | (other) "c \<noteq> DQ" "c \<noteq> CHR ''{''" "c \<noteq> CHR ''[''" by blast
  then show ?thesis
  proof cases
    case str
    from a obtain x where x: "scan_string cs = Some (x, r)" and v: "v = JStr x"
      unfolding Cons str parse_value_string by (auto split: option.splits)
    have l: "length r < length cs" using x by (rule scan_string_shorter)
    have "parse_value m s = Some (v, r)" if "2 * (length s - length r) \<le> m" for m
    proof -
      from that l obtain m' where m: "m = Suc m'" unfolding Cons by (cases m) auto
      show ?thesis unfolding m Cons str parse_value_string using x v by simp
    qed
    then show ?thesis using l Cons by simp
  next
    case list
    from a obtain d r0 where sk: "skip_ws cs = d # r0"
      unfolding Cons list parse_value_list by (cases "skip_ws cs") auto
    have l0: "length (d # r0) \<le> length cs" using skip_ws_length[of cs] unfolding sk .
    show ?thesis
    proof (cases "d = CHR '']''")
      case True
      with a sk have v: "v = JList []" "r = r0"
        unfolding Cons list parse_value_list by auto
      have "parse_value m s = Some (v, r)" if "2 * (length s - length r) \<le> m" for m
      proof -
        from that l0 v obtain m' where m: "m = Suc m'" unfolding Cons by (cases m) auto
        show ?thesis unfolding m Cons list parse_value_list using sk True v by simp
      qed
      then show ?thesis using l0 v Cons by simp
    next
      case False
      with a sk obtain xs where e: "parse_elems n (d # r0) = Some (xs, r)" and v: "v = JList xs"
        unfolding Cons list parse_value_list by (auto split: option.splits)
      have l: "length r < length (d # r0)" using IHe[OF e] by blast
      have "parse_value m s = Some (v, r)" if "2 * (length s - length r) \<le> m" for m
      proof -
        from that l l0 obtain m' where m: "m = Suc m'"
          and "2 * (length (d # r0) - length r) \<le> m'"
          unfolding Cons by (cases m) auto
        then have "parse_elems m' (d # r0) = Some (xs, r)" using IHe[OF e] by blast
        then show ?thesis unfolding m Cons list parse_value_list using sk False v by simp
      qed
      then show ?thesis using l l0 Cons by simp
    qed
  next
    case dict
    from a obtain d r0 where sk: "skip_ws cs = d # r0"
      unfolding Cons dict parse_value_dict by (cases "skip_ws cs") auto
    have l0: "length (d # r0) \<le> length cs" using skip_ws_length[of cs] unfolding sk .
    show ?thesis
    proof (cases "d = CHR ''}''")
      case True
      with a sk have v: "v = JDict []" "r = r0"
        unfolding Cons dict parse_value_dict by auto
      have "parse_value m s = Some (v, r)" if "2 * (length s - length r) \<le> m" for m
      proof -
        from that l0 v obtain m' where m: "m = Suc m'" unfolding Cons by (cases m) auto
        show ?thesis unfolding m Cons dict parse_value_dict using sk True v by simp
      qed
      then show ?thesis using l0 v Cons by simp
    next
      case False
      with a sk obtain ps where e: "parse_members n (d # r0) = Some (ps, r)"
        and v: "v = JDict (dict_of_pairs ps)"
        unfolding Cons dict parse_value_dict by (auto split: option.splits)
      have l: "length r < length (d # r0)" using IHm[OF e] by blast
      have "parse_value m s = Some (v, r)" if "2 * (length s - length r) \<le> m" for m
      proof -
        from that l l0 obtain m' where m: "m = Suc m'"
          and "2 * (length (d # r0) - length r) \<le> m'"
          unfolding Cons by (cases m) auto
        then have "parse_members m' (d # r0) = Some (ps, r)" using IHm[OF e] by blast
        then show ?thesis unfolding m Cons dict parse_value_dict using sk False v by simp
      qed
      then show ?thesis using l l0 Cons by simp
    qed
  next
    case other
    have a0: "parse_scalar (c # cs) = Some (v, r)"
      using a unfolding Cons parse_value_other[OF other] .
    have l: "length r < length (c # cs)" using a0 by (rule parse_scalar_shorter)
    have "parse_value m s = Some (v, r)" if "2 * (length s - length r) \<le> m" for m
    proof -
      from that l obtain m' where m: "m = Suc m'" unfolding Cons by (cases m) auto
      show ?thesis unfolding m Cons parse_value_other[OF other] using a0 .
    qed
    then show ?thesis using l Cons by simp
  qed
qed


lemma adequate_elems:
  assumes IHv: "\<And>s v r. parse_value n s = Some (v, r) \<Longrightarrow>
      length r < length s \<and>
      (\<forall>m. 2 * (length s - length r) \<le> m \<longrightarrow> parse_value m s = Some (v, r))"
    and IHe: "\<And>s xs r. parse_elems n s = Some (xs, r) \<Longrightarrow>
      length r < length s \<and>
      (\<forall>m. 2 * (length s - length r) \<le> m \<longrightarrow> parse_elems m s = Some (xs, r))"
    and a: "parse_elems (Suc n) s = Some (xs, r)"
  shows "length r < length s \<and>
      (\<forall>m. 2 * (length s - length r) \<le> m \<longrightarrow> parse_elems m s = Some (xs, r))"
proof -
  from a obtain v ra where v: "parse_value n s = Some (v, ra)"
    by (auto split: option.splits)
  from a v obtain d rb where sk: "skip_ws ra = d # rb"
    by (cases "skip_ws ra") auto
  have la: "length ra < length s" using IHv[OF v] by blast
  have lb: "length (d # rb) \<le> length ra" using skip_ws_length[of ra] unfolding sk .
  show ?thesis
  proof (cases "d = CHR '']''")
    case True
    with a v sk have x: "xs = [v]" "r = rb" by auto
    have "parse_elems m s = Some (xs, r)" if "2 * (length s - length r) \<le> m" for m
    proof -
      from that la lb x obtain m' where m: "m = Suc m'"
        and "2 * (length s - length ra) \<le> m'"
        by (cases m) auto
      then have "parse_value m' s = Some (v, ra)" using IHv[OF v] by blast
      then show ?thesis unfolding m using sk True x by simp
    qed
    then show ?thesis using la lb x by simp
  next
    case False
    with a v sk have c: "d = CHR '',''" by (auto split: if_splits)
    with a v sk False obtain vs where e: "parse_elems n (skip_ws rb) = Some (vs, r)"
      and x: "xs = v # vs" by (auto split: option.splits)
    have lr: "length r < length (skip_ws rb)" using IHe[OF e] by blast
    have ls: "length (skip_ws rb) \<le> length rb" by (rule skip_ws_length)
    have "parse_elems m s = Some (xs, r)" if "2 * (length s - length r) \<le> m" for m
    proof -
      from that la lb lr ls obtain m' where m: "m = Suc m'"
        and "2 * (length s - length ra) \<le> m'"
        and "2 * (length (skip_ws rb) - length r) \<le> m'"
        by (cases m) auto
      then have "parse_value m' s = Some (v, ra)" "parse_elems m' (skip_ws rb) = Some (vs, r)"
        using IHv[OF v] IHe[OF e] by blast+
      then show ?thesis unfolding m using sk False c x by simp
    qed
    then show ?thesis using la lb lr ls by simp
  qed
qed


lemma adequate_members:
  assumes IHv: "\<And>s v r. parse_value n s = Some (v, r) \<Longrightarrow>
      length r < length s \<and>
      (\<forall>m. 2 * (length s - length r) \<le> m \<longrightarrow> parse_value m s = Some (v, r))"
    and IHm: "\<And>s ps r. parse_members n s = Some (ps, r) \<Longrightarrow>
      length r < length s \<and>
      (\<forall>m. 2 * (length s - length r) \<le> m \<longrightarrow> parse_members m s = Some (ps, r))"
    and a: "parse_members (Suc n) s = Some (ps, r)"
  shows "length r < length s \<and>
      (\<forall>m. 2 * (length s - length r) \<le> m \<longrightarrow> parse_members m s = Some (ps, r))"
proof -
  from a obtain cs where s: "s = DQ # cs"
    by (cases s) (auto split: if_splits)
  from a obtain k r0 where k: "scan_string cs = Some (k, r0)"
    unfolding s by (auto split: option.splits)
  from a k obtain r1 where sk0: "skip_ws r0 = CHR '':'' # r1"
    unfolding s by (cases "skip_ws r0") (auto split: if_splits)
  from a k sk0 obtain v r2 where v: "parse_value n (skip_ws r1) = Some (v, r2)"
    unfolding s by (auto split: option.splits)
  from a k sk0 v obtain d r3 where sk2: "skip_ws r2 = d # r3"
    unfolding s by (cases "skip_ws r2") auto
  have l0: "length r0 < length cs" using k by (rule scan_string_shorter)
  have l1: "length (CHR '':'' # r1) \<le> length r0" using skip_ws_length[of r0] unfolding sk0 .
  have l1': "length (skip_ws r1) \<le> length r1" by (rule skip_ws_length)
  have l2: "length r2 < length (skip_ws r1)" using IHv[OF v] by blast
  have l3: "length (d # r3) \<le> length r2" using skip_ws_length[of r2] unfolding sk2 .
  show ?thesis
  proof (cases "d = CHR ''}''")
    case True
    with a k sk0 v sk2 have x: "ps = [(k, v)]" "r = r3" unfolding s by auto
    have "parse_members m s = Some (ps, r)" if "2 * (length s - length r) \<le> m" for m
    proof -
      from that l0 l1 l1' l2 l3 x obtain m' where m: "m = Suc m'"
        and "2 * (length (skip_ws r1) - length r2) \<le> m'"
        unfolding s by (cases m) auto
      then have "parse_value m' (skip_ws r1) = Some (v, r2)" using IHv[OF v] by blast
      then show ?thesis unfolding m s using k sk0 sk2 True x by simp
    qed
    then show ?thesis using l0 l1 l1' l2 l3 x unfolding s by simp
  next
    case False
    with a k sk0 v sk2 have c: "d = CHR '',''" unfolding s by (auto split: if_splits)
    with a k sk0 v sk2 False obtain qs where e: "parse_members n (skip_ws r3) = Some (qs, r)"
      and x: "ps = (k, v) # qs" unfolding s by (auto split: option.splits)
    have lr: "length r < length (skip_ws r3)" using IHm[OF e] by blast
    have ls: "length (skip_ws r3) \<le> length r3" by (rule skip_ws_length)
    have "parse_members m s = Some (ps, r)" if "2 * (length s - length r) \<le> m" for m
    proof -
      from that l0 l1 l1' l2 l3 lr ls obtain m' where m: "m = Suc m'"
        and "2 * (length (skip_ws r1) - length r2) \<le> m'"
        and "2 * (length (skip_ws r3) - length r) \<le> m'"
        unfolding s by (cases m) auto
      then have "parse_value m' (skip_ws r1) = Some (v, r2)"
        "parse_members m' (skip_ws r3) = Some (qs, r)"
        using IHv[OF v] IHm[OF e] by blast+
      then show ?thesis unfolding m s using k sk0 sk2 False c x by simp
    qed
    then show ?thesis using l0 l1 l1' l2 l3 lr ls unfolding s by simp
  qed
qed


lemma parse_adequate:
  "(\<forall>s v r. parse_value n s = Some (v, r) \<longrightarrow>
      length r < length s \<and>
      (\<forall>m. 2 * (length s - length r) \<le> m \<longrightarrow> parse_value m s = Some (v, r))) \<and>
   (\<forall>s xs r. parse_elems n s = Some (xs, r) \<longrightarrow>
      length r < length s \<and>
      (\<forall>m. 2 * (length s - length r) \<le> m \<longrightarrow> parse_elems m s = Some (xs, r))) \<and>
   (\<forall>s ps r. parse_members n s = Some (ps, r) \<longrightarrow>
      length r < length s \<and>
      (\<forall>m. 2 * (length s - length r) \<le> m \<longrightarrow> parse_members m s = Some (ps, r)))"
proof (induction n)
  case 0
  show ?case by simp
next
  case (Suc n)
  note IHv = Suc.IH[THEN conjunct1, rule_format]
  note IHe = Suc.IH[THEN conjunct2, THEN conjunct1, rule_format]
  note IHm = Suc.IH[THEN conjunct2, THEN conjunct2, rule_format]
  have V': "\<forall>s v r. parse_value (Suc n) s = Some (v, r) \<longrightarrow>
      length r < length s \<and>
      (\<forall>m. 2 * (length s - length r) \<le> m \<longrightarrow> parse_value m s = Some (v, r))"
    by (intro allI impI) (rule adequate_value[OF IHe IHm], assumption+)
  have E': "\<forall>s xs r. parse_elems (Suc n) s = Some (xs, r) \<longrightarrow>
      length r < length s \<and>
      (\<forall>m. 2 * (length s - length r) \<le> m \<longrightarrow> parse_elems m s = Some (xs, r))"
    by (intro allI impI) (rule adequate_elems[OF IHv IHe], assumption+)
  have M': "\<forall>s ps r. parse_members (Suc n) s = Some (ps, r) \<longrightarrow>
      length r < length s \<and>
      (\<forall>m. 2 * (length s - length r) \<le> m \<longrightarrow> parse_members m s = Some (ps, r))"
    by (intro allI impI) (rule adequate_members[OF IHv IHm], assumption+)
  show ?case by (rule conjI[OF V' conjI[OF E' M']])
qed

lemma json_loads_adequate:
  assumes "parse_value n (skip_ws s) = Some (v, r)" and "skip_ws r = []"
  shows "json_loads s = Some v"
proof -
  have "2 * (length (skip_ws s) - length r) \<le> 2 * length s + 2"
    using skip_ws_length[of s] by simp
  then have "parse_value (2 * length s + 2) (skip_ws s) = Some (v, r)"
    using parse_adequate[of n] assms(1) by blast
  then show ?thesis using assms(2) by (simp add: json_loads_def)
qed

lemma json_loads_None_iff:
  "json_loads s = None \<longleftrightarrow>
     \<not> (\<exists>n v r. parse_value n (skip_ws s) = Some (v, r) \<and> skip_ws r = [])"
proof
  assume n: "json_loads s = None"
  show "\<not> (\<exists>n v r. parse_value n (skip_ws s) = Some (v, r) \<and> skip_ws r = [])"
  proof
    assume "\<exists>n v r. parse_value n (skip_ws s) = Some (v, r) \<and> skip_ws r = []"
    then obtain k v r where "parse_value k (skip_ws s) = Some (v, r)" "skip_ws r = []" by blast
    then have "json_loads s = Some v" by (rule json_loads_adequate)
    with n show False by simp
  qed
next
  assume a: "\<not> (\<exists>n v r. parse_value n (skip_ws s) = Some (v, r) \<and> skip_ws r = [])"
  show "json_loads s = None"
  proof (cases "parse_value (2 * length s + 2) (skip_ws s)")
    case None
    then show ?thesis by (simp add: json_loads_def)
  next
    case (Some p)
    obtain v r where p: "p = (v, r)" by (cases p)
    from a Some have "skip_ws r \<noteq> []" unfolding p by blast
    then show ?thesis using Some unfolding p by (simp add: json_loads_def)
  qed
qed

end
